theory Spec2Isabelle
  imports Main "HOL-Library.Word"
begin

chapter \<open>The embedding\<close>

section \<open>Shared vocabulary\<close>

type_synonym byte = "8 word"
type_synonym bytes = "byte list"
type_synonym hex = string
type_synonym address = string

section \<open>The multicall action (src/actions/public/multicall.ts)\<close>

text \<open>
  One entry of \<open>contracts\<close>: the ABI, the target address, the arguments and the function
  name. The ABI and the arguments are opaque to the action, so they are type parameters.
\<close>

record ('abi, 'args) contract_config =
  c_abi :: 'abi
  c_address :: address
  c_args :: 'args
  c_functionName :: string

text \<open>One element of the \<open>aggregate3\<close> argument and one element of its result.\<close>

record call3 =
  allowFailure :: bool
  callData :: hex
  target :: address

record result3 =
  success :: bool
  returnData :: hex

text \<open>
  The error classes the two actions raise and test for by name, and whatever a collaborator
  (\<open>encodeFunctionData\<close>, \<open>decodeFunctionResult\<close>, the transport) throws, which is opaque
  to them (\<open>CodecError\<close>, of type \<open>'e\<close>).
\<close>

datatype 'e viem_error =
    AbiDecodingZeroDataError
  | RawContractError hex
  | ClientChainNotConfiguredError
  | ChainDoesNotSupportContract
  | CodecError 'e

text \<open>
  What the promise returned by \<open>multicall\<close> can reject with: the plain \<open>Error\<close> of line 102,
  an error of \<open>getChainContractAddress\<close> or \<open>readContract\<close> (opaque), the wrapped contract
  error of \<open>getContractError\<close> (\<open>'w\<close>), or the \<open>TypeError\<close> of destructuring
  \<open>calls[i]\<close> when \<open>i\<close> is out of range.
\<close>

datatype ('e, 'w) thrown =
    ChainNotConfigured
  | External 'e
  | ContractError 'w
  | TypeError

text \<open>
  An element of the returned array: \<open>{ result, status: 'success' }\<close>,
  \<open>{ error, result: undefined, status: 'failure' }\<close>, or the bare \<open>result\<close> when
  \<open>allowFailure\<close> is false.
\<close>

datatype ('v, 'w) multicall_result =
    Success 'v
  | Failure 'w
  | Bare 'v

text \<open>\<open>Array.prototype.map\<close> with a callback that may throw: the first throw aborts.\<close>

fun map_throw :: "('a \<Rightarrow> 't + 'b) \<Rightarrow> 'a list \<Rightarrow> 't + 'b list" where
  "map_throw f [] = Inr []"
| "map_throw f (x # xs) =
     (case f x of
        Inl t \<Rightarrow> Inl t
      | Inr y \<Rightarrow> (case map_throw f xs of Inl t \<Rightarrow> Inl t | Inr ys \<Rightarrow> Inr (y # ys)))"

text \<open>Lines 113-140: the callback of \<open>contracts.map\<close>.\<close>

definition build_call ::
  "(('abi, 'args) contract_config \<Rightarrow> 'e + hex) \<Rightarrow>
   ('e viem_error \<Rightarrow> ('abi, 'args) contract_config \<Rightarrow> 'w) \<Rightarrow>
   bool \<Rightarrow> ('abi, 'args) contract_config \<Rightarrow> ('e, 'w) thrown + call3" where
  "build_call encodeFunctionData getContractError allowF c =
     (case encodeFunctionData c of
        Inr cd \<Rightarrow> Inr \<lparr>allowFailure = True, callData = cd, target = c_address c\<rparr>
      | Inl err \<Rightarrow>
          (if \<not> allowF then Inl (ContractError (getContractError (CodecError err) c))
           else Inr \<lparr>allowFailure = True, callData = ''0x'', target = c_address c\<rparr>))"

text \<open>Lines 152-160: the body of the \<open>try\<close> block of \<open>results.map\<close>.\<close>

definition decode_outcome ::
  "('abi \<Rightarrow> string \<Rightarrow> hex \<Rightarrow> 'e + 'v) \<Rightarrow>
   ('abi, 'args) contract_config \<Rightarrow> call3 \<Rightarrow> result3 \<Rightarrow> 'e viem_error + 'v" where
  "decode_outcome decodeFunctionResult c cl r =
     (if callData cl = ''0x'' then Inl AbiDecodingZeroDataError
      else if \<not> success r then Inl (RawContractError (returnData r))
      else (case decodeFunctionResult (c_abi c) (c_functionName c) (returnData r) of
              Inl e \<Rightarrow> Inl (CodecError e)
            | Inr v \<Rightarrow> Inr v))"

text \<open>Lines 149-172: the callback of \<open>results.map\<close>, with its \<open>catch\<close>.\<close>

definition demux_result ::
  "('abi \<Rightarrow> string \<Rightarrow> hex \<Rightarrow> 'e + 'v) \<Rightarrow>
   ('e viem_error \<Rightarrow> ('abi, 'args) contract_config \<Rightarrow> 'w) \<Rightarrow>
   bool \<Rightarrow> ('abi, 'args) contract_config \<Rightarrow> call3 \<Rightarrow> result3 \<Rightarrow>
   ('e, 'w) thrown + ('v, 'w) multicall_result" where
  "demux_result decodeFunctionResult getContractError allowF c cl r =
     (case decode_outcome decodeFunctionResult c cl r of
        Inr v \<Rightarrow> Inr (if allowF then Success v else Bare v)
      | Inl err \<Rightarrow>
          (if \<not> allowF then Inl (ContractError (getContractError err c))
           else Inr (Failure (getContractError err c))))"

text \<open>
  The callback receives the index \<open>i\<close> and reads \<open>calls[i]\<close> and \<open>contracts[i]\<close>;
  destructuring \<open>undefined\<close> (index out of range) throws a \<open>TypeError\<close> outside the
  \<open>try\<close> block.
\<close>

definition demux_at ::
  "('abi \<Rightarrow> string \<Rightarrow> hex \<Rightarrow> 'e + 'v) \<Rightarrow>
   ('e viem_error \<Rightarrow> ('abi, 'args) contract_config \<Rightarrow> 'w) \<Rightarrow>
   bool \<Rightarrow> ('abi, 'args) contract_config list \<Rightarrow> call3 list \<Rightarrow> nat \<times> result3 \<Rightarrow>
   ('e, 'w) thrown + ('v, 'w) multicall_result" where
  "demux_at decodeFunctionResult getContractError allowF contracts calls ir =
     (case ir of (i, r) \<Rightarrow>
        if i < length calls \<and> i < length contracts
        then demux_result decodeFunctionResult getContractError allowF
               (contracts ! i) (calls ! i) r
        else Inl TypeError)"

text \<open>The arguments of \<open>multicall\<close> and the part of the client it reads.\<close>

record ('abi, 'args) multicall_parameters =
  p_allowFailure :: "bool option"
  p_contracts :: "('abi, 'args) contract_config list"
  p_multicallAddress :: "address option"

text \<open>
  The collaborators of the action are parameters: \<open>getChainContractAddress\<close> on the
  client's chain (absent when the client has none), \<open>readContract\<close> for
  \<open>aggregate3\<close> at the multicall address, \<open>encodeFunctionData\<close>,
  \<open>decodeFunctionResult\<close> and \<open>getContractError\<close>.
\<close>

definition resolve_multicall_address ::
  "('e + address) option \<Rightarrow> address option \<Rightarrow> ('e, 'w) thrown + address" where
  "resolve_multicall_address chainContractAddress givenAddress =
     (case (case givenAddress of
              Some a \<Rightarrow> (if a = [] then None else Some a)
            | None \<Rightarrow> None) of
        Some a \<Rightarrow> Inr a
      | None \<Rightarrow>
          (case chainContractAddress of
             None \<Rightarrow> Inl ChainNotConfigured
           | Some (Inl e) \<Rightarrow> Inl (External e)
           | Some (Inr a) \<Rightarrow> Inr a))"

definition multicall ::
  "('e + address) option \<Rightarrow>
   (address \<Rightarrow> call3 list \<Rightarrow> 'e + result3 list) \<Rightarrow>
   (('abi, 'args) contract_config \<Rightarrow> 'e + hex) \<Rightarrow>
   ('abi \<Rightarrow> string \<Rightarrow> hex \<Rightarrow> 'e + 'v) \<Rightarrow>
   ('e viem_error \<Rightarrow> ('abi, 'args) contract_config \<Rightarrow> 'w) \<Rightarrow>
   ('abi, 'args) multicall_parameters \<Rightarrow>
   ('e, 'w) thrown + ('v, 'w) multicall_result list" where
  "multicall chainContractAddress readContract encodeFunctionData decodeFunctionResult
     getContractError args =
     (let allowF = (case p_allowFailure args of None \<Rightarrow> True | Some b \<Rightarrow> b);
          contracts = p_contracts args
      in case resolve_multicall_address chainContractAddress (p_multicallAddress args) of
           Inl t \<Rightarrow> Inl t
         | Inr multicallAddress \<Rightarrow>
             (case map_throw (build_call encodeFunctionData getContractError allowF) contracts of
                Inl t \<Rightarrow> Inl t
              | Inr calls \<Rightarrow>
                  (case readContract multicallAddress calls of
                     Inl e \<Rightarrow> Inl (External e)
                   | Inr results \<Rightarrow>
                       map_throw
                         (demux_at decodeFunctionResult getContractError allowF contracts calls)
                         (enumerate 0 results))))"

section \<open>The call action (src/actions/public/call.ts)\<close>

text \<open>
  The formatted request: \<open>data\<close>, \<open>to\<close>, and every other property (\<open>from\<close>, \<open>gas\<close>,
  \<open>nonce\<close>, ...) by name, \<open>None\<close> standing for \<open>undefined\<close>.
\<close>

record 'x transaction_request =
  r_data :: "hex option"
  r_to :: "address option"
  r_rest :: "(string \<times> 'x option) list"

text \<open>Lines 175-185. An empty string is falsy, as \<open>undefined\<close> is.\<close>

definition shouldPerformMulticall :: "hex \<Rightarrow> 'x transaction_request \<Rightarrow> bool" where
  "shouldPerformMulticall aggregate3Signature request =
     (case r_data request of
        None \<Rightarrow> False
      | Some d \<Rightarrow>
          if d = [] then False
          else if take (length aggregate3Signature) d = aggregate3Signature then False
          else if r_to request = None \<or> r_to request = Some [] then False
          else if length (filter (\<lambda>x. x \<noteq> None) (map snd (r_rest request))) > 0 then False
          else True)"

text \<open>Lines 227-230: the split predicate handed to the batch scheduler.\<close>

definition shouldSplitBatch :: "int \<Rightarrow> hex list \<Rightarrow> bool" where
  "shouldSplitBatch batchSize args =
     (fold (\<lambda>d size. size + (int (length d) - 2)) args 0 > batchSize * 2)"

text \<open>Lines 210-219 of \<open>scheduleMulticall\<close>.\<close>

definition resolve_schedule_address ::
  "('e viem_error + address) option \<Rightarrow> address option \<Rightarrow> 'e viem_error + address" where
  "resolve_schedule_address chainContractAddress givenAddress =
     (case (case givenAddress of
              Some a \<Rightarrow> (if a = [] then None else Some a)
            | None \<Rightarrow> None) of
        Some a \<Rightarrow> Inr a
      | None \<Rightarrow>
          (case chainContractAddress of
             None \<Rightarrow> Inl ClientChainNotConfiguredError
           | Some r \<Rightarrow> r))"

text \<open>
  \<open>scheduleMulticall\<close>: the address is resolved, the request is handed to the scheduler,
  and lines 269-273 turn what the scheduler resolved this caller with into the return value.
  \<open>schedule\<close> is the awaited outcome for this caller: a rejection or its element of the
  aggregate result.
\<close>

definition scheduleMulticall ::
  "('e viem_error + address) option \<Rightarrow> address option \<Rightarrow>
   (address \<Rightarrow> 'e viem_error + result3) \<Rightarrow> 'e viem_error + hex option" where
  "scheduleMulticall chainContractAddress givenAddress schedule =
     (case resolve_schedule_address chainContractAddress givenAddress of
        Inl e \<Rightarrow> Inl e
      | Inr multicallAddress \<Rightarrow>
          (case schedule multicallAddress of
             Inl e \<Rightarrow> Inl e
           | Inr r \<Rightarrow>
               if \<not> success r then Inl (RawContractError (returnData r))
               else if returnData r = ''0x'' then Inr None
               else Inr (Some (returnData r))))"

text \<open>Lines 155-160: the direct \<open>eth_call\<close> and the mapping of its response.\<close>

definition direct_call :: "('e viem_error + hex) \<Rightarrow> 'e viem_error + hex option" where
  "direct_call response =
     (case response of
        Inl e \<Rightarrow> Inl e
      | Inr d \<Rightarrow> if d = ''0x'' then Inr None else Inr (Some d))"

text \<open>
  \<open>call\<close>, lines 114-167. \<open>assertRequest\<close> is the error it throws, if any;
  \<open>clientBatch\<close> is \<open>Boolean(client.batch?.multicall)\<close> and \<open>argBatch\<close> the
  \<open>batch\<close> argument; \<open>response\<close> is the outcome of the \<open>eth_call\<close> request.
  Every error leaves through \<open>getCallError\<close>.
\<close>

definition call ::
  "('e viem_error \<Rightarrow> 'c) \<Rightarrow> 'e viem_error option \<Rightarrow> hex \<Rightarrow> bool \<Rightarrow> bool option \<Rightarrow>
   'x transaction_request \<Rightarrow>
   ('e viem_error + address) option \<Rightarrow> (address \<Rightarrow> 'e viem_error + result3) \<Rightarrow>
   ('e viem_error + hex) \<Rightarrow> 'c + hex option" where
  "call getCallError assertRequest aggregate3Signature clientBatch argBatch request
     chainContractAddress schedule response =
     (let batch = (case argBatch of None \<Rightarrow> clientBatch | Some b \<Rightarrow> b);
          direct = (case direct_call response of
                      Inl e \<Rightarrow> Inl (getCallError e)
                    | Inr d \<Rightarrow> Inr d)
      in case assertRequest of
           Some e \<Rightarrow> Inl (getCallError e)
         | None \<Rightarrow>
             if batch \<and> shouldPerformMulticall aggregate3Signature request
             then (case scheduleMulticall chainContractAddress None schedule of
                     Inr d \<Rightarrow> Inr d
                   | Inl err \<Rightarrow>
                       if err \<noteq> ClientChainNotConfiguredError \<and>
                          err \<noteq> ChainDoesNotSupportContract
                       then Inl (getCallError err)
                       else direct)
             else direct)"

section \<open>A concrete batch\<close>

text \<open>
  A small instance of the collaborators, used to evaluate the actions on explicit inputs:
  contracts with unit ABI and arguments, an encoder that throws for the function name
  \<open>bad\<close>, a decoder that returns the raw data, and a \<open>getContractError\<close> that pairs the
  cause with the function name.
\<close>

definition ex_contract :: "string \<Rightarrow> (unit, unit) contract_config" where
  "ex_contract fn = \<lparr>c_abi = (), c_address = ''0xA0'', c_args = (), c_functionName = fn\<rparr>"

definition ex_encode :: "(unit, unit) contract_config \<Rightarrow> string + hex" where
  "ex_encode c = (if c_functionName c = ''bad'' then Inl ''encode'' else Inr ''0x70a08231'')"

definition ex_decode :: "unit \<Rightarrow> string \<Rightarrow> hex \<Rightarrow> string + hex" where
  "ex_decode a fn d = Inr d"

definition ex_wrap ::
  "string viem_error \<Rightarrow> (unit, unit) contract_config \<Rightarrow> string viem_error \<times> string" where
  "ex_wrap err c = (err, c_functionName c)"

definition ex_read :: "result3 list \<Rightarrow> address \<Rightarrow> call3 list \<Rightarrow> string + result3 list" where
  "ex_read rs m calls = Inr rs"

definition ex_args :: "string list \<Rightarrow> (unit, unit) multicall_parameters" where
  "ex_args fns =
     \<lparr>p_allowFailure = None, p_contracts = map ex_contract fns,
      p_multicallAddress = Some ''0xca11''\<rparr>"

definition ex_response :: "result3 list" where
  "ex_response =
     [\<lparr>success = True, returnData = ''0x01''\<rparr>,
      \<lparr>success = False, returnData = ''0x''\<rparr>,
      \<lparr>success = True, returnData = ''0x03''\<rparr>]"

definition ex_request :: "unit transaction_request" where
  "ex_request =
     \<lparr>r_data = Some ''0x70a08231'', r_to = Some ''0xA0'', r_rest = [(''from'', None)]\<rparr>"

section \<open>Big-endian integers\<close>

text \<open>The big-endian bytes of a number, without leading zero bytes; zero has none.\<close>

fun to_be :: "nat \<Rightarrow> bytes" where
  "to_be n = (if n = 0 then [] else to_be (n div 256) @ [of_nat (n mod 256)])"

declare to_be.simps [simp del]

definition from_be :: "bytes \<Rightarrow> nat" where
  "from_be bs = foldl (\<lambda>acc b. acc * 256 + unat b) 0 bs"

section \<open>The RLP codec\<close>

text \<open>The tagged variant \<open>RlpItem\<close>: \<open>Bytes(byte sequence)\<close> or \<open>List(sequence of RlpItem)\<close>.\<close>

datatype rlp_item =
    RlpBytes bytes
  | RlpList "rlp_item list"

datatype rlp_error = InvalidRlpDataError

text \<open>
  Modelled from the spec: \<open>toRlp\<close> (utils/encoding, not among the sources). Section 4.2:
  a payload of length 0 to 55 is prefixed with the single byte \<open>offset + len\<close>; a longer
  one with \<open>offset + 55 + len_of_len\<close> followed by the big-endian length. The offset is
  \<open>0x80\<close> for byte strings (\<open>0xb7\<close> is \<open>0x80 + 55\<close>) and \<open>0xc0\<close> for lists.
\<close>

definition encode_length :: "nat \<Rightarrow> nat \<Rightarrow> bytes" where
  "encode_length len offset =
     (if len \<le> 55 then [of_nat (offset + len)]
      else of_nat (offset + 55 + length (to_be len)) # to_be len)"

fun rlp_encode :: "rlp_item \<Rightarrow> bytes" where
  "rlp_encode (RlpBytes bs) = encode_length (length bs) 0x80 @ bs"
| "rlp_encode (RlpList xs) =
     (let payload = concat (map rlp_encode xs)
      in encode_length (length payload) 0xc0 @ payload)"

text \<open>
  A prefix byte holds a length of length up to 8, so the encoding is meant for payloads
  shorter than \<open>2 ^ 64\<close> bytes.
\<close>

fun rlp_ok :: "rlp_item \<Rightarrow> bool" where
  "rlp_ok (RlpBytes bs) = (length bs < 2 ^ 64)"
| "rlp_ok (RlpList xs) =
     ((\<forall>x \<in> set xs. rlp_ok x) \<and> length (concat (map rlp_encode xs)) < 2 ^ 64)"

text \<open>
  Modelled from the spec: \<open>fromRlp\<close> (utils/encoding, not among the sources). Section 4.2:
  the prefix byte gives string or list and the length tier; a long-tier length that is not
  minimal (a leading zero byte, or a value that fits the short tier) and a declared length
  beyond the remaining buffer fail with \<open>InvalidRlpDataError\<close>. The encoding rule of the
  spec produces no prefix below \<open>0x80\<close>, so such a byte belongs to no tier and is
  rejected, as is the empty input.
\<close>

definition read_length :: "nat \<Rightarrow> bytes \<Rightarrow> rlp_error + (nat \<times> bytes)" where
  "read_length lol rest =
     (if length rest < lol then Inl InvalidRlpDataError
      else (case take lol rest of
              [] \<Rightarrow> Inl InvalidRlpDataError
            | b # bs \<Rightarrow>
                if b = 0 \<or> from_be (b # bs) \<le> 55 then Inl InvalidRlpDataError
                else Inr (from_be (b # bs), drop lol rest)))"

text \<open>The header: list or string, the payload length, and the bytes after the header.\<close>

definition read_header :: "bytes \<Rightarrow> rlp_error + (bool \<times> nat \<times> bytes)" where
  "read_header bs =
     (case bs of
        [] \<Rightarrow> Inl InvalidRlpDataError
      | p # rest \<Rightarrow>
          (let n = unat p
           in if n < 0x80 then Inl InvalidRlpDataError
              else if n \<le> 0xb7 then Inr (False, n - 0x80, rest)
              else if n \<le> 0xbf then
                (case read_length (n - 0xb7) rest of
                   Inl e \<Rightarrow> Inl e
                 | Inr (len, rest') \<Rightarrow> Inr (False, len, rest'))
              else if n \<le> 0xf7 then Inr (True, n - 0xc0, rest)
              else
                (case read_length (n - 0xf7) rest of
                   Inl e \<Rightarrow> Inl e
                 | Inr (len, rest') \<Rightarrow> Inr (True, len, rest'))))"

text \<open>
  \<open>decode_item\<close> reads one item and returns it with the bytes after it; \<open>decode_list\<close>
  reads items until a list payload is used up. The test \<open>length rest < length bs\<close> in
  \<open>decode_list\<close> only states that an item takes at least its prefix byte.
\<close>

function decode_item :: "bytes \<Rightarrow> rlp_error + (rlp_item \<times> bytes)"
  and decode_list :: "bytes \<Rightarrow> rlp_error + rlp_item list" where
  "decode_item bs =
     (case read_header bs of
        Inl e \<Rightarrow> Inl e
      | Inr (is_list, len, rest) \<Rightarrow>
          if length rest < len then Inl InvalidRlpDataError
          else if \<not> is_list then Inr (RlpBytes (take len rest), drop len rest)
          else (case decode_list (take len rest) of
                  Inl e \<Rightarrow> Inl e
                | Inr xs \<Rightarrow> Inr (RlpList xs, drop len rest)))"
| "decode_list bs =
     (if bs = [] then Inr []
      else (case decode_item bs of
              Inl e \<Rightarrow> Inl e
            | Inr (x, rest) \<Rightarrow>
                if length rest < length bs
                then (case decode_list rest of
                        Inl e \<Rightarrow> Inl e
                      | Inr xs \<Rightarrow> Inr (x # xs))
                else Inl InvalidRlpDataError))"
  by pat_completeness auto
termination
proof (relation "measure (\<lambda>x. case x of Inl bs \<Rightarrow> 2 * length bs | Inr bs \<Rightarrow> 2 * length bs + 1)")
  show "wf (measure (\<lambda>x. case x of Inl bs \<Rightarrow> 2 * length bs | Inr bs \<Rightarrow> 2 * length bs + 1))"
    by simp
next
  fix bs :: bytes and x2 :: "bool \<times> nat \<times> bytes" and is_list x2a len rest
  assume h: "read_header bs = Inr x2" "(is_list, x2a) = x2" "(len, rest) = x2a"
  have "length rest < length bs"
    using h
    by (auto simp: read_header_def read_length_def Let_def
        split: list.splits if_splits sum.splits)
  then show "(Inr (take len rest), Inl bs)
      \<in> measure (\<lambda>x. case x of Inl bs \<Rightarrow> 2 * length bs | Inr bs \<Rightarrow> 2 * length bs + 1)"
    by simp
next
  fix bs :: bytes
  show "(Inl bs, Inr bs)
      \<in> measure (\<lambda>x. case x of Inl bs \<Rightarrow> 2 * length bs | Inr bs \<Rightarrow> 2 * length bs + 1)"
    by simp
next
  fix bs rest :: bytes
  assume "length rest < length bs"
  then show "(Inr rest, Inr bs)
      \<in> measure (\<lambda>x. case x of Inl bs \<Rightarrow> 2 * length bs | Inr bs \<Rightarrow> 2 * length bs + 1)"
    by simp
qed

declare decode_item.simps [simp del] decode_list.simps [simp del]

definition rlp_decode :: "bytes \<Rightarrow> rlp_error + rlp_item" where
  "rlp_decode bs = (case decode_item bs of Inl e \<Rightarrow> Inl e | Inr (x, rest) \<Rightarrow> Inr x)"

section \<open>Contract addresses (src/utils/address/getContractAddress.ts)\<close>

datatype address_error = InvalidAddressError | InvalidHexError

text \<open>\<open>isAddress\<close>: the regular expression \<open>^0x[a-fA-F0-9]{40}$\<close>.\<close>

definition is_hex_digit :: "char \<Rightarrow> bool" where
  "is_hex_digit c = (c \<in> set ''0123456789abcdefABCDEF'')"

definition isAddress :: "string \<Rightarrow> bool" where
  "isAddress a = (take 2 a = ''0x'' \<and> length (drop 2 a) = 40 \<and> list_all is_hex_digit (drop 2 a))"

text \<open>
  Modelled from the spec: \<open>getAddress\<close> (utils/address, not among the sources). It accepts
  what \<open>isAddress\<close> accepts and returns the address with its letters re-cased by the
  checksum; the bytes of the address, which is all \<open>getCreateAddress\<close> reads, do not
  depend on the case, so the model returns the address as it is.
\<close>

definition getAddress :: "string \<Rightarrow> address_error + string" where
  "getAddress a = (if isAddress a then Inr a else Inl InvalidAddressError)"

text \<open>
  Modelled from the spec: \<open>toBytes\<close> on hex text (section 4.1, \<open>from_hex\<close>; not among the
  sources): two digits per byte, \<open>InvalidHexError\<close> on an odd number of digits or on a
  character that is no hex digit.
\<close>

definition hex_value :: "char \<Rightarrow> nat" where
  "hex_value c =
     (let n = of_char c
      in if 48 \<le> n \<and> n \<le> 57 then n - 48
         else if 97 \<le> n \<and> n \<le> 102 then n - 87
         else n - 55)"

fun hex_pairs :: "string \<Rightarrow> address_error + bytes" where
  "hex_pairs [] = Inr []"
| "hex_pairs [c] = Inl InvalidHexError"
| "hex_pairs (a # b # cs) =
     (if is_hex_digit a \<and> is_hex_digit b
      then (case hex_pairs cs of
              Inl e \<Rightarrow> Inl e
            | Inr bs \<Rightarrow> Inr (of_nat (16 * hex_value a + hex_value b) # bs))
      else Inl InvalidHexError)"

definition from_hex :: "string \<Rightarrow> address_error + bytes" where
  "from_hex h = (if take 2 h = ''0x'' then hex_pairs (drop 2 h) else Inl InvalidHexError)"

text \<open>
  Modelled from the spec: \<open>toBytes\<close> on a number (section 4.1; not among the sources): the
  bytes of its hex text, which has an even, non-zero number of digits, so that zero is the
  single byte \<open>0x00\<close> and every other number has its big-endian bytes without leading zeros.
\<close>

definition number_to_bytes :: "nat \<Rightarrow> bytes" where
  "number_to_bytes n = (if n = 0 then [0] else to_be n)"

text \<open>
  \<open>getCreateAddress\<close>, lines 29-38. \<open>keccak256\<close> is a parameter. In the source the hash
  is hex text, \<open>slice(26)\<close> drops \<open>0x\<close> and 24 digits, that is 12 bytes, and the final
  \<open>getAddress\<close> re-cases the rest; the model returns the bytes of the address.
  \<open>nonce[0] === 0\<close> is false for an empty array.
\<close>

definition getCreateAddress ::
  "(bytes \<Rightarrow> bytes) \<Rightarrow> string \<Rightarrow> nat \<Rightarrow> address_error + bytes" where
  "getCreateAddress keccak256 sender n =
     (case getAddress sender of
        Inl e \<Rightarrow> Inl e
      | Inr a \<Rightarrow>
          (case from_hex a of
             Inl e \<Rightarrow> Inl e
           | Inr from_bytes \<Rightarrow>
               (let nonce0 = number_to_bytes n;
                    nonce = (case nonce0 of
                               [] \<Rightarrow> nonce0
                             | b # bs \<Rightarrow> if b = 0 then [] else nonce0)
                in Inr (drop 12 (keccak256
                     (rlp_encode (RlpList [RlpBytes from_bytes, RlpBytes nonce])))))))"

text \<open>A stand-in for the hash in evaluations: 32 bytes made from the input.\<close>

definition ex_hash :: "bytes \<Rightarrow> bytes" where
  "ex_hash bs = take 32 (bs @ replicate 32 0)"

section \<open>Signature hashing (hashFunction)\<close>




fun join :: "string \<Rightarrow> string list \<Rightarrow> string" where
  "join sep [] = []"
| "join sep [x] = x"
| "join sep (x # y # ys) = x @ sep @ join sep (y # ys)"
















section \<open>The batch scheduler\<close>

text \<open>
  Modelled from the spec: \<open>createBatchScheduler\<close> (utils/promise, not among the sources),
  for one scheduling key (section 4.6; keys are independent). The bucket is the ordered
  list of pending calls, each with the number of its resolver; \<open>invocations\<close> records the
  request lists the executor was called with, \<open>resolved\<close> the resolutions delivered, both
  in order of time. The executor fails outright (\<open>Inl cause\<close>) or returns the per-call
  outcomes (\<open>Inr\<close>), each a failure \<open>Inl cause\<close> or a success \<open>Inr data\<close>.
\<close>

record ('q, 'c, 'd) scheduler =
  bucket :: "(nat \<times> 'q) list"
  registered :: nat
  invocations :: "'q list list"
  resolved :: "(nat \<times> ('c + 'd)) list"

definition scheduler_init :: "('q, 'c, 'd) scheduler" where
  "scheduler_init = \<lparr>bucket = [], registered = 0, invocations = [], resolved = []\<rparr>"

text \<open>
  On flush the executor receives the ordered requests of the bucket. On success pending
  call \<open>i\<close> resolves with outcome \<open>i\<close>; on executor failure every pending call of the
  bucket resolves with that failure, wrapped with its call-site context. The bucket is
  discarded.
\<close>

definition flush ::
  "('q list \<Rightarrow> 'c + ('c + 'd) list) \<Rightarrow> ('c \<Rightarrow> 'q \<Rightarrow> 'c) \<Rightarrow>
   ('q, 'c, 'd) scheduler \<Rightarrow> ('q, 'c, 'd) scheduler" where
  "flush executor wrap st =
     (let b = bucket st;
          outcome =
            (case executor (map snd b) of
               Inl cause \<Rightarrow> map (\<lambda>(i, q). (i, Inl (wrap cause q))) b
             | Inr rs \<Rightarrow> map (\<lambda>((i, q), r). (i, r)) (zip b rs))
      in st\<lparr>bucket := [],
            invocations := invocations st @ [map snd b],
            resolved := resolved st @ outcome\<rparr>)"

text \<open>
  The flush scheduled at the creation of a bucket runs when the synchronous burst of
  registrations is over; without a bucket there is nothing to flush.
\<close>

definition end_of_tick ::
  "('q list \<Rightarrow> 'c + ('c + 'd) list) \<Rightarrow> ('c \<Rightarrow> 'q \<Rightarrow> 'c) \<Rightarrow>
   ('q, 'c, 'd) scheduler \<Rightarrow> ('q, 'c, 'd) scheduler" where
  "end_of_tick executor wrap st = (if bucket st = [] then st else flush executor wrap st)"

text \<open>
  \<open>register\<close> hands out the next resolver and appends the request. The split predicate
  is consulted on the requests collected so far together with the new one, which is what
  the bucket holds after the append; if it holds, the bucket collected so far is flushed
  immediately and the new request starts a new bucket under the same key, so that a
  flushed batch stays under the byte budget (section 4.6 and the split policy of
  section 8). Without a bucket there is nothing to flush.
\<close>

definition register ::
  "('q list \<Rightarrow> bool) \<Rightarrow> ('q list \<Rightarrow> 'c + ('c + 'd) list) \<Rightarrow> ('c \<Rightarrow> 'q \<Rightarrow> 'c) \<Rightarrow>
   'q \<Rightarrow> ('q, 'c, 'd) scheduler \<Rightarrow> ('q, 'c, 'd) scheduler" where
  "register should_split executor wrap q st =
     (let st1 = (if should_split (map snd (bucket st) @ [q])
                 then end_of_tick executor wrap st else st)
      in st1\<lparr>bucket := bucket st1 @ [(registered st1, q)],
             registered := Suc (registered st1)\<rparr>)"

text \<open>One tick: the registrations of a synchronous burst, then the scheduled flush.\<close>

definition run_tick ::
  "('q list \<Rightarrow> bool) \<Rightarrow> ('q list \<Rightarrow> 'c + ('c + 'd) list) \<Rightarrow> ('c \<Rightarrow> 'q \<Rightarrow> 'c) \<Rightarrow>
   'q list \<Rightarrow> ('q, 'c, 'd) scheduler" where
  "run_tick should_split executor wrap qs =
     end_of_tick executor wrap
       (fold (register should_split executor wrap) qs scheduler_init)"

text \<open>
  The scheduler as \<open>scheduleMulticall\<close> configures it (call.ts, lines 224-230): a request
  is the pair of \<open>data\<close> and \<open>to\<close>, and the split predicate is \<open>shouldSplitBatch\<close> on the
  \<open>data\<close> of the requests, which counts hex digits against twice the byte budget.
\<close>

definition multicall_split :: "int \<Rightarrow> (hex \<times> address) list \<Rightarrow> bool" where
  "multicall_split batchSize reqs = shouldSplitBatch batchSize (map fst reqs)"

text \<open>The calldata size of a batch in bytes: two hex digits per byte after \<open>0x\<close>.\<close>

definition calldata_bytes :: "(hex \<times> address) list \<Rightarrow> int" where
  "calldata_bytes reqs = (\<Sum>d \<leftarrow> map fst reqs. (int (length d) - 2)) div 2"

text \<open>An executor for evaluations: every call succeeds and returns its own calldata.\<close>

definition ex_executor :: "(hex \<times> address) list \<Rightarrow> string + (string + hex) list" where
  "ex_executor reqs = Inr (map (\<lambda>(d, t). Inr d) reqs)"

text \<open>
  The resolver numbers handed out so far are those of the resolutions delivered followed
  by those still pending in the bucket.
\<close>

definition ids_inv :: "('q, 'c, 'd) scheduler \<Rightarrow> bool" where
  "ids_inv st = (map fst (resolved st) @ map fst (bucket st) = [0..<registered st])"

text \<open>
  A sequence of batches is cut at crossings when each batch, joined by the first request
  of the next one, asks for a split.
\<close>

fun crossing :: "('q list \<Rightarrow> bool) \<Rightarrow> 'q list list \<Rightarrow> bool" where
  "crossing should_split (b # c # bs) =
     (c \<noteq> [] \<and> should_split (b @ [hd c]) \<and> crossing should_split (c # bs))"
| "crossing should_split bs = True"

text \<open>A batch respects the budget, or it is a single request.\<close>

definition fits :: "('q list \<Rightarrow> bool) \<Rightarrow> 'q list \<Rightarrow> bool" where
  "fits should_split b = (b \<noteq> [] \<and> (length b = 1 \<or> \<not> should_split b))"

text \<open>
  What holds of the bucket and of the executor invocations between two registrations: the
  batches flushed so far followed by the bucket are the requests registered, in order;
  each of them fits and they are cut at crossings; the bucket is empty only before the
  first registration.
\<close>

definition split_inv ::
  "('q list \<Rightarrow> bool) \<Rightarrow> 'q list \<Rightarrow> ('q, 'c, 'd) scheduler \<Rightarrow> bool" where
  "split_inv should_split qs st =
     (if bucket st = [] then invocations st = [] \<and> qs = []
      else list_all (fits should_split) (invocations st @ [map snd (bucket st)]) \<and>
           crossing should_split (invocations st @ [map snd (bucket st)]) \<and>
           concat (invocations st) @ map snd (bucket st) = qs)"

definition ex_failing :: "(hex \<times> address) list \<Rightarrow> string + (string + hex) list" where
  "ex_failing reqs = Inl ''timeout''"

section \<open>The ABI parameter codec\<close>

text \<open>
  The shapes of section 3. Whether a type is static or dynamic, and its static width, are
  computed from the shape by \<open>is_dynamic\<close> and \<open>static_size\<close> below.
\<close>

datatype abi_type =
    TUint nat
  | TInt nat
  | TAddress
  | TBool
  | TFixedBytes nat
  | TBytes
  | TString
  | TTuple "abi_type list"
  | TArray abi_type "nat option"

text \<open>
  Native values: unsigned and signed integers, an address as its 20 bytes, booleans, byte
  strings, text (a character is a byte), tuples and arrays.
\<close>

datatype abi_value =
    VUint nat
  | VInt int
  | VAddress bytes
  | VBool bool
  | VFixedBytes bytes
  | VBytes bytes
  | VString string
  | VTuple "abi_value list"
  | VArray "abi_value list"

text \<open>
  The errors of section 4.4 and \<open>SizeOverflowError\<close> of \<open>pad\<close> (section 4.1);
  \<open>AbiEncodingBytesSizeMismatchError\<close> is declared in errors/abi.ts for a \<open>bytesN\<close>
  value of another size. \<open>InvalidAbiValueError\<close> stands for a value whose kind is not
  that of its type, which an untyped caller can pass.
\<close>

datatype abi_error =
    AbiEncodingLengthMismatchError
  | AbiEncodingArrayLengthMismatchError
  | AbiEncodingBytesSizeMismatchError
  | SizeOverflowError
  | InvalidAbiValueError
  | AbiDecodingZeroDataError
  | AbiDecodingDataSizeInvalidError
  | AbiDecodingDataSizeTooSmallError

text \<open>
  Modelled from the spec: the ABI type classifier (section 4.3, not among the sources). An
  array or tuple is dynamic iff an element is dynamic or the array is unbounded; a static
  fixed array has the width of its element times its length, a static tuple the sum of the
  widths of its fields; every other static type is one word.
\<close>

fun is_dynamic :: "abi_type \<Rightarrow> bool" where
  "is_dynamic TBytes = True"
| "is_dynamic TString = True"
| "is_dynamic (TArray t None) = True"
| "is_dynamic (TArray t (Some n)) = is_dynamic t"
| "is_dynamic (TTuple ts) = list_ex is_dynamic ts"
| "is_dynamic t = False"

fun static_size :: "abi_type \<Rightarrow> nat" where
  "static_size (TArray t (Some n)) = n * static_size t"
| "static_size (TTuple ts) = sum_list (map static_size ts)"
| "static_size t = 32"

text \<open>The width of the head slot of a parameter: its static width, or one offset word.\<close>

definition head_size :: "abi_type \<Rightarrow> nat" where
  "head_size t = (if is_dynamic t then 32 else static_size t)"

text \<open>
  Modelled from the spec: \<open>pad\<close> (section 4.1, not among the sources), which fails with
  \<open>SizeOverflowError\<close> if the input is larger than the target size; a number as a
  word is its big-endian bytes padded on the left.
\<close>

definition pad_left :: "nat \<Rightarrow> bytes \<Rightarrow> abi_error + bytes" where
  "pad_left n bs =
     (if n < length bs then Inl SizeOverflowError else Inr (replicate (n - length bs) 0 @ bs))"

definition pad_right :: "nat \<Rightarrow> bytes \<Rightarrow> abi_error + bytes" where
  "pad_right n bs =
     (if n < length bs then Inl SizeOverflowError else Inr (bs @ replicate (n - length bs) 0))"

definition word32 :: "nat \<Rightarrow> abi_error + bytes" where
  "word32 v = pad_left 32 (to_be v)"

text \<open>Content padded on the right to a 32-byte boundary.\<close>

definition pad32 :: "bytes \<Rightarrow> bytes" where
  "pad32 bs = bs @ replicate ((32 - length bs mod 32) mod 32) 0"

definition byte_of_char :: "char \<Rightarrow> byte" where
  "byte_of_char c = of_nat (of_char c)"

definition char_of_byte :: "byte \<Rightarrow> char" where
  "char_of_byte b = char_of (unat b)"

text \<open>
  Modelled from the spec: \<open>encodeAbiParameters\<close> (section 4.4, not among the sources).
  \<open>heads_tails\<close> makes the head and the tail of a parameter list from the encoded
  parameters: a static parameter is inlined in the head; a dynamic one has in the head the
  offset of its payload, which is appended to the tail. Offsets are counted from the start
  of the value block, the head followed by the tail, so the first payload lies at the size
  of the head.
\<close>

fun heads_tails :: "nat \<Rightarrow> abi_type list \<Rightarrow> bytes list \<Rightarrow> abi_error + (bytes \<times> bytes)" where
  "heads_tails off [] bodies = Inr ([], [])"
| "heads_tails off (t # ts) [] = Inl AbiEncodingLengthMismatchError"
| "heads_tails off (t # ts) (b # bs) =
     (if is_dynamic t
      then (case word32 off of
              Inl e \<Rightarrow> Inl e
            | Inr w \<Rightarrow>
                (case heads_tails (off + length b) ts bs of
                   Inl e \<Rightarrow> Inl e
                 | Inr (h, tail) \<Rightarrow> Inr (w @ h, b @ tail)))
      else (case heads_tails off ts bs of
              Inl e \<Rightarrow> Inl e
            | Inr (h, tail) \<Rightarrow> Inr (b @ h, tail)))"

definition layout :: "abi_type list \<Rightarrow> abi_error + bytes list \<Rightarrow> abi_error + bytes" where
  "layout ts r =
     (case r of
        Inl e \<Rightarrow> Inl e
      | Inr bodies \<Rightarrow>
          (case heads_tails (sum_list (map head_size ts)) ts bodies of
             Inl e \<Rightarrow> Inl e
           | Inr (h, tail) \<Rightarrow> Inr (h @ tail)))"

definition with_length :: "nat \<Rightarrow> abi_error + bytes \<Rightarrow> abi_error + bytes" where
  "with_length n r =
     (case word32 n of
        Inl e \<Rightarrow> Inl e
      | Inr w \<Rightarrow> (case r of Inl e \<Rightarrow> Inl e | Inr b \<Rightarrow> Inr (w @ b)))"

text \<open>
  \<open>enc_body\<close> encodes one value: the inline word(s) of a static type, the payload of a
  dynamic one. A negative \<open>int\<close> is in two's complement on 256 bits. A tuple or an array
  is a parameter list of its own, with its own heads and tails; an unbounded array has its
  element count in front.
\<close>

fun enc_body :: "abi_type \<Rightarrow> abi_value \<Rightarrow> abi_error + bytes"
  and enc_bodies :: "abi_type list \<Rightarrow> abi_value list \<Rightarrow> abi_error + bytes list" where
  "enc_body t (VUint v) =
     (case t of TUint n \<Rightarrow> word32 v | _ \<Rightarrow> Inl InvalidAbiValueError)"
| "enc_body t (VInt v) =
     (case t of TInt n \<Rightarrow> word32 (nat (v mod 2 ^ 256)) | _ \<Rightarrow> Inl InvalidAbiValueError)"
| "enc_body t (VAddress a) =
     (case t of TAddress \<Rightarrow> pad_left 32 a | _ \<Rightarrow> Inl InvalidAbiValueError)"
| "enc_body t (VBool b) =
     (case t of TBool \<Rightarrow> word32 (if b then 1 else 0) | _ \<Rightarrow> Inl InvalidAbiValueError)"
| "enc_body t (VFixedBytes bs) =
     (case t of
        TFixedBytes n \<Rightarrow>
          if length bs \<noteq> n then Inl AbiEncodingBytesSizeMismatchError else pad_right 32 bs
      | _ \<Rightarrow> Inl InvalidAbiValueError)"
| "enc_body t (VBytes bs) =
     (case t of
        TBytes \<Rightarrow> with_length (length bs) (Inr (pad32 bs))
      | _ \<Rightarrow> Inl InvalidAbiValueError)"
| "enc_body t (VString s) =
     (case t of
        TString \<Rightarrow> with_length (length s) (Inr (pad32 (map byte_of_char s)))
      | _ \<Rightarrow> Inl InvalidAbiValueError)"
| "enc_body t (VTuple vs) =
     (case t of
        TTuple ts \<Rightarrow>
          if length ts \<noteq> length vs then Inl AbiEncodingLengthMismatchError
          else layout ts (enc_bodies ts vs)
      | _ \<Rightarrow> Inl InvalidAbiValueError)"
| "enc_body t (VArray vs) =
     (case t of
        TArray t' None \<Rightarrow>
          with_length (length vs)
            (layout (replicate (length vs) t') (enc_bodies (replicate (length vs) t') vs))
      | TArray t' (Some n) \<Rightarrow>
          if length vs \<noteq> n then Inl AbiEncodingArrayLengthMismatchError
          else layout (replicate n t') (enc_bodies (replicate n t') vs)
      | _ \<Rightarrow> Inl InvalidAbiValueError)"
| "enc_bodies ts [] = (if ts = [] then Inr [] else Inl AbiEncodingLengthMismatchError)"
| "enc_bodies ts (v # vs) =
     (case ts of
        [] \<Rightarrow> Inl AbiEncodingLengthMismatchError
      | t # ts' \<Rightarrow>
          (case enc_body t v of
             Inl e \<Rightarrow> Inl e
           | Inr b \<Rightarrow>
               (case enc_bodies ts' vs of
                  Inl e \<Rightarrow> Inl e
                | Inr bs \<Rightarrow> Inr (b # bs))))"

definition encodeAbiParameters :: "abi_type list \<Rightarrow> abi_value list \<Rightarrow> abi_error + bytes" where
  "encodeAbiParameters params vals =
     (if length params \<noteq> length vals then Inl AbiEncodingLengthMismatchError
      else layout params (enc_bodies params vals))"

text \<open>
  Modelled from the spec: \<open>decodeAbiParameters\<close> (section 4.4, not among the sources),
  the mirror traversal. \<open>read_word\<close> reads the word at a position as a number and fails
  with \<open>AbiDecodingDataSizeTooSmallError\<close> past the end of the buffer.
\<close>

definition read_word :: "bytes \<Rightarrow> nat \<Rightarrow> abi_error + nat" where
  "read_word data pos =
     (if length data < pos + 32 then Inl AbiDecodingDataSizeTooSmallError
      else Inr (from_be (take 32 (drop pos data))))"

text \<open>
  \<open>dec_body\<close> decodes one value from the bytes that begin with its encoding;
  \<open>dec_elem\<close> decodes the parameter whose head slot is at \<open>pos\<close> of the value block
  \<open>blk\<close>: a static one in place, a dynamic one at the offset its slot holds, counted from
  the start of the block; \<open>dec_seq\<close> walks the head of a parameter list and \<open>dec_rep\<close>
  the head of \<open>n\<close> elements of one type.
\<close>

function dec_body :: "abi_type \<Rightarrow> bytes \<Rightarrow> abi_error + abi_value"
  and dec_elem :: "abi_type \<Rightarrow> bytes \<Rightarrow> nat \<Rightarrow> abi_error + abi_value"
  and dec_seq :: "abi_type list \<Rightarrow> bytes \<Rightarrow> nat \<Rightarrow> abi_error + abi_value list"
  and dec_rep :: "abi_type \<Rightarrow> nat \<Rightarrow> bytes \<Rightarrow> nat \<Rightarrow> abi_error + abi_value list" where
  "dec_body t bs =
     (case t of
        TUint n \<Rightarrow>
          (case read_word bs 0 of Inl e \<Rightarrow> Inl e | Inr w \<Rightarrow> Inr (VUint w))
      | TInt n \<Rightarrow>
          (case read_word bs 0 of
             Inl e \<Rightarrow> Inl e
           | Inr w \<Rightarrow> Inr (VInt (if w < 2 ^ 255 then int w else int w - 2 ^ 256)))
      | TAddress \<Rightarrow>
          if length bs < 32 then Inl AbiDecodingDataSizeTooSmallError
          else Inr (VAddress (take 20 (drop 12 bs)))
      | TBool \<Rightarrow>
          (case read_word bs 0 of Inl e \<Rightarrow> Inl e | Inr w \<Rightarrow> Inr (VBool (w \<noteq> 0)))
      | TFixedBytes n \<Rightarrow>
          if length bs < 32 then Inl AbiDecodingDataSizeTooSmallError
          else Inr (VFixedBytes (take n bs))
      | TBytes \<Rightarrow>
          (case read_word bs 0 of
             Inl e \<Rightarrow> Inl e
           | Inr len \<Rightarrow>
               if length bs < 32 + len then Inl AbiDecodingDataSizeTooSmallError
               else Inr (VBytes (take len (drop 32 bs))))
      | TString \<Rightarrow>
          (case read_word bs 0 of
             Inl e \<Rightarrow> Inl e
           | Inr len \<Rightarrow>
               if length bs < 32 + len then Inl AbiDecodingDataSizeTooSmallError
               else Inr (VString (map char_of_byte (take len (drop 32 bs)))))
      | TTuple ts \<Rightarrow>
          (case dec_seq ts bs 0 of Inl e \<Rightarrow> Inl e | Inr vs \<Rightarrow> Inr (VTuple vs))
      | TArray t' None \<Rightarrow>
          (case read_word bs 0 of
             Inl e \<Rightarrow> Inl e
           | Inr n \<Rightarrow>
               (case dec_rep t' n (drop 32 bs) 0 of
                  Inl e \<Rightarrow> Inl e
                | Inr vs \<Rightarrow> Inr (VArray vs)))
      | TArray t' (Some n) \<Rightarrow>
          (case dec_rep t' n bs 0 of Inl e \<Rightarrow> Inl e | Inr vs \<Rightarrow> Inr (VArray vs)))"
| "dec_elem t blk pos =
     (if is_dynamic t
      then (case read_word blk pos of
              Inl e \<Rightarrow> Inl e
            | Inr off \<Rightarrow>
                if length blk < off then Inl AbiDecodingDataSizeTooSmallError
                else dec_body t (drop off blk))
      else dec_body t (drop pos blk))"
| "dec_seq ts blk pos =
     (case ts of
        [] \<Rightarrow> Inr []
      | t # ts' \<Rightarrow>
          (case dec_elem t blk pos of
             Inl e \<Rightarrow> Inl e
           | Inr v \<Rightarrow>
               (case dec_seq ts' blk (pos + head_size t) of
                  Inl e \<Rightarrow> Inl e
                | Inr vs \<Rightarrow> Inr (v # vs))))"
| "dec_rep t n blk pos =
     (case n of
        0 \<Rightarrow> Inr []
      | Suc m \<Rightarrow>
          (case dec_elem t blk pos of
             Inl e \<Rightarrow> Inl e
           | Inr v \<Rightarrow>
               (case dec_rep t m blk (pos + head_size t) of
                  Inl e \<Rightarrow> Inl e
                | Inr vs \<Rightarrow> Inr (v # vs))))"
  by pat_completeness auto
termination
  by (relation "inv_image (less_than <*lex*> less_than)
        (\<lambda>x. case x of
           Inl (Inl (t, bs)) \<Rightarrow> (size t, 0)
         | Inl (Inr (t, blk, pos)) \<Rightarrow> (size t, 1)
         | Inr (Inl (ts, blk, pos)) \<Rightarrow> (size_list size ts, 0)
         | Inr (Inr (t, n, blk, pos)) \<Rightarrow> (size t, n + 2))")
    auto

declare dec_body.simps [simp del] dec_elem.simps [simp del] dec_seq.simps [simp del]
  dec_rep.simps [simp del]

definition decodeAbiParameters :: "abi_type list \<Rightarrow> bytes \<Rightarrow> abi_error + abi_value list" where
  "decodeAbiParameters params data =
     (if data = [] then Inl AbiDecodingZeroDataError
      else if length data mod 32 \<noteq> 0 then Inl AbiDecodingDataSizeInvalidError
      else dec_seq params data 0)"

text \<open>
  The values of a type: an integer within the range of its width (a multiple of 8 from 8
  to 256), an address of 20 bytes, \<open>bytesN\<close> with \<open>N\<close> from 1 to 32 bytes, and tuples
  and arrays of values of their element types, a fixed array with its declared length.
\<close>

fun valid_value :: "abi_type \<Rightarrow> abi_value \<Rightarrow> bool"
  and valid_values :: "abi_type list \<Rightarrow> abi_value list \<Rightarrow> bool" where
  "valid_value t (VUint v) =
     (case t of TUint n \<Rightarrow> n mod 8 = 0 \<and> 8 \<le> n \<and> n \<le> 256 \<and> v < 2 ^ n | _ \<Rightarrow> False)"
| "valid_value t (VInt v) =
     (case t of
        TInt n \<Rightarrow> n mod 8 = 0 \<and> 8 \<le> n \<and> n \<le> 256 \<and> - (2 ^ (n - 1)) \<le> v \<and> v < 2 ^ (n - 1)
      | _ \<Rightarrow> False)"
| "valid_value t (VAddress a) = (case t of TAddress \<Rightarrow> length a = 20 | _ \<Rightarrow> False)"
| "valid_value t (VBool b) = (case t of TBool \<Rightarrow> True | _ \<Rightarrow> False)"
| "valid_value t (VFixedBytes bs) =
     (case t of TFixedBytes n \<Rightarrow> 1 \<le> n \<and> n \<le> 32 \<and> length bs = n | _ \<Rightarrow> False)"
| "valid_value t (VBytes bs) = (case t of TBytes \<Rightarrow> True | _ \<Rightarrow> False)"
| "valid_value t (VString s) = (case t of TString \<Rightarrow> True | _ \<Rightarrow> False)"
| "valid_value t (VTuple vs) = (case t of TTuple ts \<Rightarrow> valid_values ts vs | _ \<Rightarrow> False)"
| "valid_value t (VArray vs) =
     (case t of
        TArray t' None \<Rightarrow> valid_values (replicate (length vs) t') vs
      | TArray t' (Some n) \<Rightarrow> length vs = n \<and> valid_values (replicate n t') vs
      | _ \<Rightarrow> False)"
| "valid_values ts [] = (ts = [])"
| "valid_values ts (v # vs) =
     (case ts of [] \<Rightarrow> False | t # ts' \<Rightarrow> valid_value t v \<and> valid_values ts' vs)"

text \<open>
  Three lists related element by element, and what the round trip needs of an encoded
  value: its length is a multiple of the word size and, for a static type, the static
  width; decoding it gives the value back, whatever follows it in the buffer.
\<close>

fun all3 :: "('a \<Rightarrow> 'b \<Rightarrow> 'c \<Rightarrow> bool) \<Rightarrow> 'a list \<Rightarrow> 'b list \<Rightarrow> 'c list \<Rightarrow> bool" where
  "all3 P [] [] [] = True"
| "all3 P (a # as) (b # bs) (c # cs) = (P a b c \<and> all3 P as bs cs)"
| "all3 P as bs cs = False"

definition encodes :: "abi_type \<Rightarrow> abi_value \<Rightarrow> bytes \<Rightarrow> bool" where
  "encodes t v b =
     (length b mod 32 = 0 \<and>
      (\<not> is_dynamic t \<longrightarrow> length b = static_size t) \<and>
      (\<forall>rest. dec_body t (b @ rest) = Inr v))"

definition encodes_or_overflows :: "abi_type \<Rightarrow> abi_value \<Rightarrow> abi_error + bytes \<Rightarrow> bool" where
  "encodes_or_overflows t v r =
     (case r of Inl e \<Rightarrow> e = SizeOverflowError | Inr b \<Rightarrow> encodes t v b)"

text \<open>
  What the round trip needs of the head and tail made for a parameter list, and of the
  encoding of a parameter list: only a size that does not fit a word makes the encoding
  fail; the head has the width of the head slots; head and tail are word-aligned; decoding
  the list at its place in a buffer gives the values back.
\<close>

definition seq_ok ::
  "nat \<Rightarrow> abi_type list \<Rightarrow> abi_value list \<Rightarrow> abi_error + (bytes \<times> bytes) \<Rightarrow> bool" where
  "seq_ok off ts vs r =
     (case r of
        Inl e \<Rightarrow> e = SizeOverflowError
      | Inr (h, tail) \<Rightarrow>
          length h = sum_list (map head_size ts) \<and>
          length h mod 32 = 0 \<and>
          length tail mod 32 = 0 \<and>
          (\<not> list_ex is_dynamic ts \<longrightarrow> tail = []) \<and>
          (\<forall>pre mid rest. off = length pre + length h + length mid \<longrightarrow>
             dec_seq ts (pre @ h @ mid @ tail @ rest) (length pre) = Inr vs))"

definition list_encodes_or_overflows ::
  "abi_type list \<Rightarrow> abi_value list \<Rightarrow> abi_error + bytes \<Rightarrow> bool" where
  "list_encodes_or_overflows ts vs r =
     (case r of
        Inl e \<Rightarrow> e = SizeOverflowError
      | Inr blk \<Rightarrow>
          length blk mod 32 = 0 \<and>
          (\<not> list_ex is_dynamic ts \<longrightarrow> length blk = sum_list (map static_size ts)) \<and>
          (\<forall>rest. dec_seq ts (blk @ rest) 0 = Inr vs))"

text \<open>A parameter list with nested tuples, nested dynamic arrays and empty values.\<close>

definition ex_params :: "abi_type list" where
  "ex_params =
     [TUint 8, TString,
      TArray (TArray (TUint 256) None) None,
      TTuple [TBool, TBytes, TArray TString (Some 2)],
      TInt 16,
      TArray (TUint 8) None]"

definition ex_values :: "abi_value list" where
  "ex_values =
     [VUint 7, VString ''hi'',
      VArray [VArray [VUint 1, VUint 2], VArray []],
      VTuple [VBool True, VBytes [1, 2, 3], VArray [VString [], VString ''abc'']],
      VInt (- 2),
      VArray []]"

text \<open>
  A bound on the size of an encoding, from the values alone: every length and offset the
  encoder writes into a word is at most the weight of the values. \<open>dyn_total\<close> is the
  total length of the dynamic payloads of a parameter list.
\<close>

fun abi_weight :: "abi_value \<Rightarrow> nat"
  and abi_weights :: "abi_value list \<Rightarrow> nat" where
  "abi_weight (VUint v) = 32"
| "abi_weight (VInt v) = 32"
| "abi_weight (VAddress a) = 32"
| "abi_weight (VBool b) = 32"
| "abi_weight (VFixedBytes bs) = 32"
| "abi_weight (VBytes bs) = 64 + length bs"
| "abi_weight (VString s) = 64 + length s"
| "abi_weight (VTuple vs) = abi_weights vs"
| "abi_weight (VArray vs) = 32 + abi_weights vs"
| "abi_weights [] = 0"
| "abi_weights (v # vs) = 32 + abi_weight v + abi_weights vs"

fun dyn_total :: "abi_type list \<Rightarrow> bytes list \<Rightarrow> nat" where
  "dyn_total (t # ts) (b # bs) = (if is_dynamic t then length b else 0) + dyn_total ts bs"
| "dyn_total ts bs = 0"

chapter \<open>Properties\<close>

section \<open>The multicall action\<close>

lemma map_throw_Inr_iff: "map_throw f xs = Inr ys \<longleftrightarrow> map f xs = map Inr ys"
proof (induction xs arbitrary: ys)
  case Nil
  then show ?case by auto
next
  case (Cons x xs)
  show ?case
  proof (cases ys)
    case Nil
    then show ?thesis by (simp split: sum.splits)
  next
    case (Cons y ys')
    then show ?thesis using Cons.IH [of ys'] by (auto split: sum.splits)
  qed
qed

lemma map_throw_Inl_nth:
  "map_throw f xs = Inl t \<Longrightarrow> \<exists>i<length xs. f (xs ! i) = Inl t"
proof (induction xs)
  case Nil
  then show ?case by simp
next
  case (Cons x xs)
  show ?case
  proof (cases "f x")
    case (Inl a)
    with Cons.prems have "f ((x # xs) ! 0) = Inl t" by simp
    then show ?thesis by (intro exI [of _ 0]) simp
  next
    case (Inr y)
    with Cons.prems have "map_throw f xs = Inl t" by (simp split: sum.splits)
    from Cons.IH [OF this] obtain i where i: "i < length xs" "f (xs ! i) = Inl t" by blast
    then show ?thesis by (intro exI [of _ "Suc i"]) simp
  qed
qed

lemma map_throw_Inr_nth:
  assumes "map_throw f xs = Inr ys"
  shows "length ys = length xs" and "\<And>i. i < length xs \<Longrightarrow> f (xs ! i) = Inr (ys ! i)"
proof -
  from assms have eq: "map f xs = map Inr ys" by (simp add: map_throw_Inr_iff)
  then show len: "length ys = length xs" by (metis length_map)
  fix i assume "i < length xs"
  then have "map f xs ! i = f (xs ! i)" "map Inr ys ! i = Inr (ys ! i)" using len by simp_all
  with eq show "f (xs ! i) = Inr (ys ! i)" by metis
qed

lemma map_throw_total:
  "(\<And>x. x \<in> set xs \<Longrightarrow> f x = Inr (g x)) \<Longrightarrow> map_throw f xs = Inr (map g xs)"
  by (simp add: map_throw_Inr_iff)

lemma demux_at_enumerate:
  assumes "i < length results" "length results \<le> length calls" "length results \<le> length contracts"
  shows "demux_at dec gce allowF contracts calls (enumerate 0 results ! i) =
         demux_result dec gce allowF (contracts ! i) (calls ! i) (results ! i)"
  using assms by (simp add: demux_at_def nth_enumerate_eq)

lemma multicall_unfold:
  fixes gce :: "'e viem_error \<Rightarrow> ('abi, 'args) contract_config \<Rightarrow> 'w"
  assumes "(resolve_multicall_address cca (p_multicallAddress args) :: ('e, 'w) thrown + address) = Inr m"
    and "map_throw (build_call enc gce (case p_allowFailure args of None \<Rightarrow> True | Some b \<Rightarrow> b))
           (p_contracts args) = Inr calls"
    and "rc m calls = Inr results"
  shows "multicall cca rc enc dec gce args =
         map_throw (demux_at dec gce (case p_allowFailure args of None \<Rightarrow> True | Some b \<Rightarrow> b)
                      (p_contracts args) calls) (enumerate 0 results)"
  using assms by (simp add: multicall_def Let_def)

text \<open>
  C2. The result at position \<open>i\<close> of \<open>multicall\<close> is made from the contract registered at
  position \<open>i\<close>, the call built for it and the element \<open>i\<close> of the aggregate response, in
  registration order; when the action throws (only possible with \<open>allowFailure\<close> false), it
  throws what one of these positions throws.
\<close>

theorem multicall_result_order:
  fixes gce :: "'e viem_error \<Rightarrow> ('abi, 'args) contract_config \<Rightarrow> 'w"
  assumes "(resolve_multicall_address cca (p_multicallAddress args) :: ('e, 'w) thrown + address) = Inr m"
    and "allowF = (case p_allowFailure args of None \<Rightarrow> True | Some b \<Rightarrow> b)"
    and "map_throw (build_call enc gce allowF) (p_contracts args) = Inr calls"
    and "rc m calls = Inr results"
    and "length results \<le> length (p_contracts args)"
  shows "case multicall cca rc enc dec gce args of
           Inr outs \<Rightarrow>
             length outs = length results \<and>
             (\<forall>i<length results.
                demux_result dec gce allowF (p_contracts args ! i) (calls ! i) (results ! i)
                  = Inr (outs ! i))
         | Inl t \<Rightarrow>
             \<not> allowF \<and>
             (\<exists>i<length results.
                demux_result dec gce allowF (p_contracts args ! i) (calls ! i) (results ! i)
                  = Inl t)"
proof -
  let ?f = "demux_at dec gce allowF (p_contracts args) calls"
  have lc: "length calls = length (p_contracts args)"
    using map_throw_Inr_nth(1) [OF assms(3)] .
  have mc: "multicall cca rc enc dec gce args = map_throw ?f (enumerate 0 results)"
    using multicall_unfold [of cca args m enc gce calls rc results dec] assms by simp
  have at: "\<And>i. i < length results \<Longrightarrow>
      ?f (enumerate 0 results ! i) =
      demux_result dec gce allowF (p_contracts args ! i) (calls ! i) (results ! i)"
    using demux_at_enumerate assms(5) lc by (metis order_refl le_trans)
  show ?thesis
  proof (cases "map_throw ?f (enumerate 0 results)")
    case (Inr outs)
    have "length outs = length results"
      using map_throw_Inr_nth(1) [OF Inr] by simp
    moreover have "\<forall>i<length results.
        demux_result dec gce allowF (p_contracts args ! i) (calls ! i) (results ! i) = Inr (outs ! i)"
      using map_throw_Inr_nth(2) [OF Inr] at by simp
    ultimately show ?thesis using mc Inr by simp
  next
    case (Inl t)
    from map_throw_Inl_nth [OF Inl] obtain i where i: "i < length results"
      "?f (enumerate 0 results ! i) = Inl t" by auto
    then have d: "demux_result dec gce allowF (p_contracts args ! i) (calls ! i) (results ! i) = Inl t"
      using at by simp
    then have "\<not> allowF"
      by (auto simp: demux_result_def split: sum.splits if_splits)
    with d i(1) show ?thesis using mc Inl by auto
  qed
qed

lemma ex_calls:
  "map_throw (build_call ex_encode ex_wrap True) (map ex_contract [''a'', ''bad'', ''c'']) =
   Inr [\<lparr>allowFailure = True, callData = ''0x70a08231'', target = ''0xA0''\<rparr>,
        \<lparr>allowFailure = True, callData = ''0x'', target = ''0xA0''\<rparr>,
        \<lparr>allowFailure = True, callData = ''0x70a08231'', target = ''0xA0''\<rparr>]"
  by (simp add: build_call_def ex_encode_def ex_contract_def)


theorem multicall_result_order_witness:
  "(resolve_multicall_address None (p_multicallAddress (ex_args [''a'', ''b'', ''c'']))
      :: (string, string viem_error \<times> string) thrown + address) = Inr ''0xca11'' \<and>
   multicall None (ex_read ex_response) ex_encode ex_decode ex_wrap (ex_args [''a'', ''b'', ''c''])
     = Inr [Success ''0x01'', Failure (RawContractError ''0x'', ''b''), Success ''0x03'']"
proof -
  let ?args = "ex_args [''a'', ''b'', ''c'']"
  let ?calls = "replicate 3 \<lparr>allowFailure = True, callData = ''0x70a08231'', target = ''0xA0''\<rparr>"
  have h1: "(resolve_multicall_address None (p_multicallAddress ?args)
      :: (string, string viem_error \<times> string) thrown + address) = Inr ''0xca11''"
    by (simp add: resolve_multicall_address_def ex_args_def)
  have h2: "True = (case p_allowFailure ?args of None \<Rightarrow> True | Some b \<Rightarrow> b)"
    by (simp add: ex_args_def)
  have h3: "map_throw (build_call ex_encode ex_wrap True) (p_contracts ?args) = Inr ?calls"
    by (simp add: ex_args_def build_call_def ex_encode_def ex_contract_def numeral_3_eq_3)
  have h4: "ex_read ex_response ''0xca11'' ?calls = Inr ex_response"
    by (simp add: ex_read_def)
  have h5: "length ex_response \<le> length (p_contracts ?args)"
    by (simp add: ex_response_def ex_args_def)
  have ev: "multicall None (ex_read ex_response) ex_encode ex_decode ex_wrap ?args
     = Inr [Success ''0x01'', Failure (RawContractError ''0x'', ''b''), Success ''0x03'']"
    using multicall_result_order [where cca = None and args = ?args and m = "''0xca11''"
        and allowF = True and enc = ex_encode and gce = ex_wrap and calls = ?calls
        and rc = "ex_read ex_response" and results = ex_response and dec = ex_decode,
        OF h1 h2 h3 h4 h5]
    by (simp add: multicall_def resolve_multicall_address_def ex_args_def build_call_def
        ex_encode_def ex_contract_def ex_read_def ex_response_def demux_at_def demux_result_def
        decode_outcome_def ex_decode_def ex_wrap_def)
  from h1 ev show ?thesis by simp
qed

lemma build_call_allow:
  "build_call enc gce True c =
     Inr \<lparr>allowFailure = True,
          callData = (case enc c of Inr cd \<Rightarrow> cd | Inl _ \<Rightarrow> ''0x''),
          target = c_address c\<rparr>"
  by (simp add: build_call_def split: sum.splits)

lemma demux_result_allow:
  "demux_result dec gce True c cl r =
     Inr (case decode_outcome dec c cl r of
            Inr v \<Rightarrow> Success v
          | Inl err \<Rightarrow> Failure (gce err c))"
  by (simp add: demux_result_def split: sum.splits)

lemma multicall_allow_total:
  fixes gce :: "'e viem_error \<Rightarrow> ('abi, 'args) contract_config \<Rightarrow> 'w"
  assumes "(resolve_multicall_address cca (p_multicallAddress args) :: ('e, 'w) thrown + address) = Inr m"
    and "case p_allowFailure args of None \<Rightarrow> True | Some b \<Rightarrow> b"
    and "map_throw (build_call enc gce True) (p_contracts args) = Inr calls"
    and "rc m calls = Inr results"
    and "length results \<le> length (p_contracts args)"
  shows "\<exists>outs. multicall cca rc enc dec gce args = Inr outs \<and> length outs = length results \<and>
           (\<forall>i<length results.
              outs ! i = (case decode_outcome dec (p_contracts args ! i) (calls ! i) (results ! i) of
                            Inr v \<Rightarrow> Success v
                          | Inl err \<Rightarrow> Failure (gce err (p_contracts args ! i))))"
proof -
  let ?g = "\<lambda>(i, r). case decode_outcome dec (p_contracts args ! i) (calls ! i) r of
                      Inr v \<Rightarrow> Success v
                    | Inl err \<Rightarrow> Failure (gce err (p_contracts args ! i))"
  let ?f = "demux_at dec gce True (p_contracts args) calls"
  have aF: "(case p_allowFailure args of None \<Rightarrow> True | Some b \<Rightarrow> b) = True"
    using assms(2) by simp
  have lc: "length calls = length (p_contracts args)"
    using map_throw_Inr_nth(1) [OF assms(3)] .
  have mc: "multicall cca rc enc dec gce args = map_throw ?f (enumerate 0 results)"
    using multicall_unfold [of cca args m enc gce calls rc results dec] assms(1,3,4) aF by simp
  have "\<And>x. x \<in> set (enumerate 0 results) \<Longrightarrow> ?f x = Inr (?g x)"
  proof -
    fix x assume "x \<in> set (enumerate 0 results)"
    then have "fst x < length results"
      by (simp add: in_set_enumerate_eq)
    then obtain i r where x: "x = (i, r)" "i < length results"
      by (metis prod.collapse)
    then show "?f x = Inr (?g x)"
      using assms(5) lc by (simp add: demux_at_def demux_result_allow)
  qed
  then have "map_throw ?f (enumerate 0 results) = Inr (map ?g (enumerate 0 results))"
    by (rule map_throw_total)
  with mc have "multicall cca rc enc dec gce args = Inr (map ?g (enumerate 0 results))" by simp
  moreover have "\<forall>i<length results. map ?g (enumerate 0 results) ! i =
      (case decode_outcome dec (p_contracts args ! i) (calls ! i) (results ! i) of
         Inr v \<Rightarrow> Success v
       | Inl err \<Rightarrow> Failure (gce err (p_contracts args ! i)))"
    by (simp add: nth_enumerate_eq)
  ultimately show ?thesis by simp
qed

text \<open>
  C3, as stated, fails: a call whose calldata could not be encoded holds the placeholder
  \<open>0x\<close>, and yields a failure although the aggregate response marks it successful and its
  return data decodes.
\<close>

theorem multicall_success_not_decoded_counterexample:
  "multicall None (ex_read ex_response) ex_encode ex_decode ex_wrap (ex_args [''bad'', ''b'', ''c''])
     = Inr [Failure (viem_error.AbiDecodingZeroDataError, ''bad''),
            Failure (RawContractError ''0x'', ''b''),
            Success ''0x03''] \<and>
   success (ex_response ! 0) \<and>
   ex_decode () ''bad'' (returnData (ex_response ! 0)) = Inr ''0x01''"
  by (simp add: multicall_def resolve_multicall_address_def ex_args_def build_call_def
      ex_encode_def ex_contract_def ex_read_def ex_response_def demux_at_def demux_result_def
      decode_outcome_def ex_decode_def ex_wrap_def)

text \<open>
  C3, amended. With failure allowed, \<open>multicall\<close> returns one result per element of the
  aggregate response, and the result at position \<open>i\<close> is made from contract \<open>i\<close>, its call
  and response \<open>i\<close> alone: a call marked failed yields a failure; a call marked successful
  whose calldata was encoded (it is not the placeholder \<open>0x\<close>) yields its decoded value
  when its return data decodes, and the decoding error as a failure otherwise.
\<close>

theorem multicall_outcomes_independent:
  fixes gce :: "'e viem_error \<Rightarrow> ('abi, 'args) contract_config \<Rightarrow> 'w"
  assumes "(resolve_multicall_address cca (p_multicallAddress args) :: ('e, 'w) thrown + address) = Inr m"
    and "case p_allowFailure args of None \<Rightarrow> True | Some b \<Rightarrow> b"
    and "map_throw (build_call enc gce True) (p_contracts args) = Inr calls"
    and "rc m calls = Inr results"
    and "length results \<le> length (p_contracts args)"
  shows "\<exists>outs. multicall cca rc enc dec gce args = Inr outs \<and> length outs = length results \<and>
           (\<forall>i<length results.
              (\<not> success (results ! i) \<longrightarrow>
                 (\<exists>err. outs ! i = Failure (gce err (p_contracts args ! i)))) \<and>
              (success (results ! i) \<and> callData (calls ! i) \<noteq> ''0x'' \<longrightarrow>
                 outs ! i =
                   (case dec (c_abi (p_contracts args ! i)) (c_functionName (p_contracts args ! i))
                           (returnData (results ! i)) of
                      Inr v \<Rightarrow> Success v
                    | Inl e \<Rightarrow> Failure (gce (CodecError e) (p_contracts args ! i)))))"
proof -
  from multicall_allow_total [where rc = rc and dec = dec, OF assms] obtain outs where
    o: "multicall cca rc enc dec gce args = Inr outs" "length outs = length results"
       "\<forall>i<length results.
          outs ! i = (case decode_outcome dec (p_contracts args ! i) (calls ! i) (results ! i) of
                        Inr v \<Rightarrow> Success v
                      | Inl err \<Rightarrow> Failure (gce err (p_contracts args ! i)))"
    by blast
  have "\<forall>i<length results.
      (\<not> success (results ! i) \<longrightarrow>
         (\<exists>err. outs ! i = Failure (gce err (p_contracts args ! i)))) \<and>
      (success (results ! i) \<and> callData (calls ! i) \<noteq> ''0x'' \<longrightarrow>
         outs ! i =
           (case dec (c_abi (p_contracts args ! i)) (c_functionName (p_contracts args ! i))
                   (returnData (results ! i)) of
              Inr v \<Rightarrow> Success v
            | Inl e \<Rightarrow> Failure (gce (CodecError e) (p_contracts args ! i))))"
  proof (intro allI impI)
    fix i assume i: "i < length results"
    let ?c = "p_contracts args ! i"
    have oi: "outs ! i = (case decode_outcome dec ?c (calls ! i) (results ! i) of
                        Inr v \<Rightarrow> Success v
                      | Inl err \<Rightarrow> Failure (gce err ?c))"
      using o(3) i by simp
    have a: "\<not> success (results ! i) \<longrightarrow> (\<exists>err. outs ! i = Failure (gce err ?c))"
      using oi by (auto simp: decode_outcome_def)
    have b: "success (results ! i) \<and> callData (calls ! i) \<noteq> ''0x'' \<longrightarrow>
         outs ! i =
           (case dec (c_abi ?c) (c_functionName ?c) (returnData (results ! i)) of
              Inr v \<Rightarrow> Success v
            | Inl e \<Rightarrow> Failure (gce (CodecError e) ?c))"
      using oi by (auto simp: decode_outcome_def split: sum.splits)
    from a b show "(\<not> success (results ! i) \<longrightarrow> (\<exists>err. outs ! i = Failure (gce err ?c))) \<and>
      (success (results ! i) \<and> callData (calls ! i) \<noteq> ''0x'' \<longrightarrow>
         outs ! i =
           (case dec (c_abi ?c) (c_functionName ?c) (returnData (results ! i)) of
              Inr v \<Rightarrow> Success v
            | Inl e \<Rightarrow> Failure (gce (CodecError e) ?c)))" by blast
  qed
  with o(1,2) show ?thesis by blast
qed

theorem multicall_outcomes_independent_witness:
  "(resolve_multicall_address None (p_multicallAddress (ex_args [''a'', ''b'', ''c'']))
      :: (string, string viem_error \<times> string) thrown + address) = Inr ''0xca11'' \<and>
   (\<exists>outs. multicall None (ex_read ex_response) ex_encode ex_decode ex_wrap
             (ex_args [''a'', ''b'', ''c'']) = Inr outs \<and>
      outs ! 0 = Success ''0x01'' \<and>
      (\<exists>err. outs ! 1 = Failure (ex_wrap err (ex_contract ''b''))) \<and>
      outs ! 2 = Success ''0x03'')"
proof -
  let ?args = "ex_args [''a'', ''b'', ''c'']"
  let ?calls = "replicate 3 \<lparr>allowFailure = True, callData = ''0x70a08231'', target = ''0xA0''\<rparr>"
  have h1: "(resolve_multicall_address None (p_multicallAddress ?args)
      :: (string, string viem_error \<times> string) thrown + address) = Inr ''0xca11''"
    by (simp add: resolve_multicall_address_def ex_args_def)
  have h2: "case p_allowFailure ?args of None \<Rightarrow> True | Some b \<Rightarrow> b"
    by (simp add: ex_args_def)
  have h3: "map_throw (build_call ex_encode ex_wrap True) (p_contracts ?args) = Inr ?calls"
    by (simp add: ex_args_def build_call_def ex_encode_def ex_contract_def numeral_3_eq_3)
  have h4: "ex_read ex_response ''0xca11'' ?calls = Inr ex_response"
    by (simp add: ex_read_def)
  have h5: "length ex_response \<le> length (p_contracts ?args)"
    by (simp add: ex_response_def ex_args_def)
  from multicall_outcomes_independent [where cca = None and args = ?args and m = "''0xca11''"
        and enc = ex_encode and gce = ex_wrap and calls = ?calls
        and rc = "ex_read ex_response" and results = ex_response and dec = ex_decode,
        OF h1 h2 h3 h4 h5]
  obtain outs where o: "multicall None (ex_read ex_response) ex_encode ex_decode ex_wrap ?args = Inr outs"
    and all: "\<forall>i<length ex_response.
              (\<not> success (ex_response ! i) \<longrightarrow>
                 (\<exists>err. outs ! i = Failure (ex_wrap err (p_contracts ?args ! i)))) \<and>
              (success (ex_response ! i) \<and> callData (?calls ! i) \<noteq> ''0x'' \<longrightarrow>
                 outs ! i =
                   (case ex_decode (c_abi (p_contracts ?args ! i)) (c_functionName (p_contracts ?args ! i))
                           (returnData (ex_response ! i)) of
                      Inr v \<Rightarrow> Success v
                    | Inl e \<Rightarrow> Failure (ex_wrap (CodecError e) (p_contracts ?args ! i))))"
    by blast
  have l: "(0::nat) < length ex_response" "(1::nat) < length ex_response" "(2::nat) < length ex_response"
    by (simp_all add: ex_response_def)
  have "outs ! 0 = Success ''0x01''"
    using all [rule_format, OF l(1)] by (simp add: ex_response_def ex_decode_def)
  moreover have "\<exists>err. outs ! 1 = Failure (ex_wrap err (ex_contract ''b''))"
    using all [rule_format, OF l(2)] by (simp add: ex_response_def ex_args_def)
  moreover have "outs ! 2 = Success ''0x03''"
    using all [rule_format, OF l(3)] by (simp add: ex_response_def ex_decode_def)
  ultimately show ?thesis using h1 o by blast
qed

text \<open>
  C9. With \<open>allowFailure\<close> at its default, a contract whose calldata cannot be encoded
  keeps its position \<open>i\<close> in the aggregate call, with the placeholder calldata \<open>0x\<close>; its
  result at position \<open>i\<close> is a failure whose cause is \<open>AbiDecodingZeroDataError\<close>, passed
  through \<open>getContractError\<close>; every other position \<open>j\<close> gets the result made from its own
  contract, call and response.
\<close>

theorem multicall_encode_failure_placeholder:
  fixes gce :: "'e viem_error \<Rightarrow> ('abi, 'args) contract_config \<Rightarrow> 'w"
  assumes "(resolve_multicall_address cca (p_multicallAddress args) :: ('e, 'w) thrown + address) = Inr m"
    and "p_allowFailure args = None"
    and "i < length (p_contracts args)"
    and "enc (p_contracts args ! i) = Inl e"
  shows "\<exists>calls.
           map_throw (build_call enc gce True) (p_contracts args) = Inr calls \<and>
           length calls = length (p_contracts args) \<and>
           calls ! i = \<lparr>allowFailure = True, callData = ''0x'',
                        target = c_address (p_contracts args ! i)\<rparr> \<and>
           (\<forall>j<length (p_contracts args).
              build_call enc gce True (p_contracts args ! j) = Inr (calls ! j)) \<and>
           (\<forall>results. rc m calls = Inr results \<and> length results = length (p_contracts args) \<longrightarrow>
              (\<exists>outs. multicall cca rc enc dec gce args = Inr outs \<and>
                 length outs = length (p_contracts args) \<and>
                 outs ! i = Failure (gce viem_error.AbiDecodingZeroDataError (p_contracts args ! i)) \<and>
                 (\<forall>j<length (p_contracts args). j \<noteq> i \<longrightarrow>
                    outs ! j =
                      (case decode_outcome dec (p_contracts args ! j) (calls ! j) (results ! j) of
                         Inr v \<Rightarrow> Success v
                       | Inl err \<Rightarrow> Failure (gce err (p_contracts args ! j))))))"
proof -
  let ?cs = "p_contracts args"
  let ?mk = "\<lambda>c. \<lparr>allowFailure = True,
                   callData = (case enc c of Inr cd \<Rightarrow> cd | Inl _ \<Rightarrow> ''0x''),
                   target = c_address c\<rparr>"
  let ?calls = "map ?mk ?cs"
  have mt: "map_throw (build_call enc gce True) ?cs = Inr ?calls"
    by (rule map_throw_total) (simp add: build_call_allow)
  have ci: "?calls ! i = \<lparr>allowFailure = True, callData = ''0x'', target = c_address (?cs ! i)\<rparr>"
    using assms(3,4) by simp
  have bj: "\<forall>j<length ?cs. build_call enc gce True (?cs ! j) = Inr (?calls ! j)"
    by (simp add: build_call_allow)
  have aF: "case p_allowFailure args of None \<Rightarrow> True | Some b \<Rightarrow> b"
    using assms(2) by simp
  have res: "\<forall>results. rc m ?calls = Inr results \<and> length results = length ?cs \<longrightarrow>
              (\<exists>outs. multicall cca rc enc dec gce args = Inr outs \<and>
                 length outs = length ?cs \<and>
                 outs ! i = Failure (gce viem_error.AbiDecodingZeroDataError (?cs ! i)) \<and>
                 (\<forall>j<length ?cs. j \<noteq> i \<longrightarrow>
                    outs ! j =
                      (case decode_outcome dec (?cs ! j) (?calls ! j) (results ! j) of
                         Inr v \<Rightarrow> Success v
                       | Inl err \<Rightarrow> Failure (gce err (?cs ! j)))))"
  proof (intro allI impI)
    fix results assume r: "rc m ?calls = Inr results \<and> length results = length ?cs"
    then have rc: "rc m ?calls = Inr results" and len: "length results \<le> length ?cs" by simp_all
    from multicall_allow_total [where rc = rc and dec = dec, OF assms(1) aF mt rc len]
    obtain outs where o: "multicall cca rc enc dec gce args = Inr outs"
      "length outs = length results"
      "\<forall>j<length results.
          outs ! j = (case decode_outcome dec (?cs ! j) (?calls ! j) (results ! j) of
                        Inr v \<Rightarrow> Success v
                      | Inl err \<Rightarrow> Failure (gce err (?cs ! j)))"
      by blast
    have "outs ! i = (case decode_outcome dec (?cs ! i) (?calls ! i) (results ! i) of
                        Inr v \<Rightarrow> Success v
                      | Inl err \<Rightarrow> Failure (gce err (?cs ! i)))"
      using o(3) assms(3) r by simp
    then have "outs ! i = Failure (gce viem_error.AbiDecodingZeroDataError (?cs ! i))"
      unfolding ci by (simp add: decode_outcome_def)
    with o r show "\<exists>outs. multicall cca rc enc dec gce args = Inr outs \<and>
                 length outs = length ?cs \<and>
                 outs ! i = Failure (gce viem_error.AbiDecodingZeroDataError (?cs ! i)) \<and>
                 (\<forall>j<length ?cs. j \<noteq> i \<longrightarrow>
                    outs ! j =
                      (case decode_outcome dec (?cs ! j) (?calls ! j) (results ! j) of
                         Inr v \<Rightarrow> Success v
                       | Inl err \<Rightarrow> Failure (gce err (?cs ! j))))"
      by simp
  qed
  have len: "length ?calls = length ?cs" by simp
  from mt len ci bj res show ?thesis by blast
qed

theorem multicall_encode_failure_placeholder_witness:
  "ex_encode (p_contracts (ex_args [''bad'', ''b'', ''c'']) ! 0) = Inl ''encode'' \<and>
   (\<exists>calls.
      map_throw (build_call ex_encode ex_wrap True) (p_contracts (ex_args [''bad'', ''b'', ''c'']))
        = Inr calls \<and>
      calls ! 0 = \<lparr>allowFailure = True, callData = ''0x'', target = ''0xA0''\<rparr> \<and>
      (\<exists>outs. multicall None (ex_read ex_response) ex_encode ex_decode ex_wrap
                (ex_args [''bad'', ''b'', ''c'']) = Inr outs \<and>
         outs ! 0 = Failure (viem_error.AbiDecodingZeroDataError, ''bad'') \<and>
         outs ! 2 = Success ''0x03''))"
proof -
  let ?args = "ex_args [''bad'', ''b'', ''c'']"
  have h1: "(resolve_multicall_address None (p_multicallAddress ?args)
      :: (string, string viem_error \<times> string) thrown + address) = Inr ''0xca11''"
    by (simp add: resolve_multicall_address_def ex_args_def)
  have h2: "p_allowFailure ?args = None"
    by (simp add: ex_args_def)
  have h3: "0 < length (p_contracts ?args)"
    by (simp add: ex_args_def)
  have h4: "ex_encode (p_contracts ?args ! 0) = Inl ''encode''"
    by (simp add: ex_args_def ex_encode_def ex_contract_def)
  from multicall_encode_failure_placeholder [where cca = None and args = ?args
        and m = "''0xca11''" and enc = ex_encode and gce = ex_wrap and i = 0
        and rc = "ex_read ex_response" and dec = ex_decode, OF h1 h2 h3 h4]
  obtain calls where c: "map_throw (build_call ex_encode ex_wrap True) (p_contracts ?args) = Inr calls"
    "calls ! 0 = \<lparr>allowFailure = True, callData = ''0x'', target = c_address (p_contracts ?args ! 0)\<rparr>"
    "\<forall>results. ex_read ex_response ''0xca11'' calls = Inr results \<and>
        length results = length (p_contracts ?args) \<longrightarrow>
        (\<exists>outs. multicall None (ex_read ex_response) ex_encode ex_decode ex_wrap ?args = Inr outs \<and>
           length outs = length (p_contracts ?args) \<and>
           outs ! 0 = Failure (ex_wrap viem_error.AbiDecodingZeroDataError (p_contracts ?args ! 0)) \<and>
           (\<forall>j<length (p_contracts ?args). j \<noteq> 0 \<longrightarrow>
              outs ! j =
                (case decode_outcome ex_decode (p_contracts ?args ! j) (calls ! j) (results ! j) of
                   Inr v \<Rightarrow> Success v
                 | Inl err \<Rightarrow> Failure (ex_wrap err (p_contracts ?args ! j)))))"
    by blast
  have "ex_read ex_response ''0xca11'' calls = Inr ex_response \<and>
        length ex_response = length (p_contracts ?args)"
    by (simp add: ex_read_def ex_response_def ex_args_def)
  with c(3) obtain outs where
    o: "multicall None (ex_read ex_response) ex_encode ex_decode ex_wrap ?args = Inr outs"
       "outs ! 0 = Failure (ex_wrap viem_error.AbiDecodingZeroDataError (p_contracts ?args ! 0))"
    by blast
  have o2: "outs ! 2 = Success ''0x03''"
    using o(1)
    by (simp add: multicall_def resolve_multicall_address_def ex_args_def build_call_def
      ex_encode_def ex_contract_def ex_read_def ex_response_def demux_at_def demux_result_def
      decode_outcome_def ex_decode_def ex_wrap_def) auto
  have t: "c_address (p_contracts ?args ! 0) = ''0xA0''"
    by (simp add: ex_args_def ex_contract_def)
  have w: "ex_wrap viem_error.AbiDecodingZeroDataError (p_contracts ?args ! 0) = (viem_error.AbiDecodingZeroDataError, ''bad'')"
    by (simp add: ex_args_def ex_contract_def ex_wrap_def)
  from h4 c(1) c(2) o o2 show ?thesis unfolding t w by blast
qed

section \<open>The call action\<close>

text \<open>
  C10. \<open>call\<close> maps an empty response to an absent value. When the request passes
  \<open>assertRequest\<close>: on the direct path (no batching, or batching given up because the
  client has no chain or the chain no multicall contract) a response \<open>0x\<close> gives
  \<open>{ data: undefined }\<close>; on the batched path a successful element with return data \<open>0x\<close>
  gives \<open>{ data: undefined }\<close>.
\<close>

theorem call_empty_response_undefined:
  fixes getCallError :: "'e viem_error \<Rightarrow> 'c"
  assumes "batch = (case argBatch of None \<Rightarrow> clientBatch | Some b \<Rightarrow> b)"
    and "batched = (batch \<and> shouldPerformMulticall sig request)"
  shows "(\<not> batched \<and> response = Inr ''0x'' \<longrightarrow>
            call getCallError None sig clientBatch argBatch request cca schedule response = Inr None) \<and>
         (batched \<and> resolve_schedule_address cca None = Inr m \<and>
          schedule m = Inr \<lparr>success = True, returnData = ''0x''\<rparr> \<longrightarrow>
            call getCallError None sig clientBatch argBatch request cca schedule response = Inr None) \<and>
         (batched \<and> scheduleMulticall cca None schedule = Inl err \<and>
          (err = ClientChainNotConfiguredError \<or> err = ChainDoesNotSupportContract) \<and>
          response = Inr ''0x'' \<longrightarrow>
            call getCallError None sig clientBatch argBatch request cca schedule response = Inr None)"
  using assms
  by (auto simp: call_def Let_def direct_call_def scheduleMulticall_def split: sum.splits)

theorem call_empty_response_undefined_witness:
  "shouldPerformMulticall ''0x82ad56cb'' ex_request \<and>
   call id None ''0x82ad56cb'' True None ex_request (Some (Inr ''0xca11''))
     (\<lambda>m. Inr \<lparr>success = True, returnData = ''0x''\<rparr>) (Inr ''0xff'')
     = (Inr None :: string viem_error + hex option) \<and>
   call id None ''0x82ad56cb'' False None ex_request (Some (Inr ''0xca11''))
     (\<lambda>m. Inr \<lparr>success = True, returnData = ''0xff''\<rparr>) (Inr ''0x'')
     = (Inr None :: string viem_error + hex option)"
proof -
  have s: "shouldPerformMulticall ''0x82ad56cb'' ex_request"
    by (simp add: shouldPerformMulticall_def ex_request_def)
  have r: "resolve_schedule_address (Some (Inr ''0xca11'')) None
             = (Inr ''0xca11'' :: string viem_error + address)"
    by (simp add: resolve_schedule_address_def)
  have b1: "True = (case None of None \<Rightarrow> True | Some b \<Rightarrow> b)" by simp
  have b2: "True = (True \<and> shouldPerformMulticall ''0x82ad56cb'' ex_request)" using s by simp
  have c1: "False = (case None of None \<Rightarrow> False | Some b \<Rightarrow> b)" by simp
  have c2: "False = (False \<and> shouldPerformMulticall ''0x82ad56cb'' ex_request)" by simp
  have batched: "call id None ''0x82ad56cb'' True None ex_request (Some (Inr ''0xca11''))
     (\<lambda>m. Inr \<lparr>success = True, returnData = ''0x''\<rparr>) (Inr ''0xff'')
     = (Inr None :: string viem_error + hex option)"
    using call_empty_response_undefined [where getCallError = "id :: string viem_error \<Rightarrow> _"
        and argBatch = None and clientBatch = True and batch = True and batched = True
        and sig = "''0x82ad56cb''" and request = ex_request and cca = "Some (Inr ''0xca11'')"
        and m = "''0xca11''" and schedule = "\<lambda>m. Inr \<lparr>success = True, returnData = ''0x''\<rparr>"
        and response = "Inr ''0xff''", OF b1 b2] r
    by simp
  have direct: "call id None ''0x82ad56cb'' False None ex_request (Some (Inr ''0xca11''))
     (\<lambda>m. Inr \<lparr>success = True, returnData = ''0xff''\<rparr>) (Inr ''0x'')
     = (Inr None :: string viem_error + hex option)"
    using call_empty_response_undefined [where getCallError = "id :: string viem_error \<Rightarrow> _"
        and argBatch = None and clientBatch = False and batch = False and batched = False
        and sig = "''0x82ad56cb''" and request = ex_request and cca = "Some (Inr ''0xca11'')"
        and schedule = "\<lambda>m. Inr \<lparr>success = True, returnData = ''0xff''\<rparr>"
        and response = "Inr ''0x''", OF c1 c2]
    by simp
  from s batched direct show ?thesis by simp
qed

section \<open>The RLP codec\<close>

lemma unat_of_nat_byte: "n < 256 \<Longrightarrow> unat (of_nat n :: byte) = n"
  by (simp add: unat_of_nat)

lemma from_be_append: "from_be (xs @ [b]) = from_be xs * 256 + unat b"
  by (simp add: from_be_def)

lemma from_be_to_be: "from_be (to_be n) = n"
proof (induction n rule: to_be.induct)
  case (1 n)
  show ?case
  proof (cases "n = 0")
    case True
    then show ?thesis by (simp add: to_be.simps from_be_def)
  next
    case False
    then have "to_be n = to_be (n div 256) @ [of_nat (n mod 256)]"
      by (subst to_be.simps) simp
    then show ?thesis using 1 False
      by (simp add: from_be_append unat_of_nat_byte)
  qed
qed

lemma to_be_eq_Nil: "to_be n = [] \<longleftrightarrow> n = 0"
  by (subst to_be.simps) simp

lemma hd_to_be: "n \<noteq> 0 \<Longrightarrow> hd (to_be n) \<noteq> 0"
proof (induction n rule: to_be.induct)
  case (1 n)
  have step: "to_be n = to_be (n div 256) @ [of_nat (n mod 256)]"
    using 1(2) by (subst to_be.simps) simp
  show ?case
  proof (cases "n div 256 = 0")
    case True
    then have "n < 256" using div_eq_0_iff [of n 256] by simp
    moreover have "to_be (n div 256) = []" using True by (simp add: to_be_eq_Nil)
    ultimately have "to_be n = [of_nat n]" "unat (of_nat n :: byte) = n"
      using step by (simp_all add: unat_of_nat_byte)
    then show ?thesis using 1(2) by (metis list.sel(1) unat_0)
  next
    case False
    then have "hd (to_be (n div 256)) \<noteq> 0" using 1 by simp
    moreover have "to_be (n div 256) \<noteq> []" using False by (simp add: to_be_eq_Nil)
    ultimately show ?thesis using step by simp
  qed
qed

lemma length_to_be_bound: "n < 256 ^ k \<Longrightarrow> length (to_be n) \<le> k"
proof (induction n arbitrary: k rule: to_be.induct)
  case (1 n)
  show ?case
  proof (cases "n = 0")
    case True
    then have "to_be n = []" by (simp add: to_be_eq_Nil)
    then show ?thesis by simp
  next
    case False
    then have step: "to_be n = to_be (n div 256) @ [of_nat (n mod 256)]"
      by (subst to_be.simps) simp
    from False 1(2) obtain k' where k: "k = Suc k'" by (cases k) auto
    then have "n div 256 < 256 ^ k'" using 1(2)
      by (simp add: less_mult_imp_div_less mult.commute)
    from 1(1) [OF False this] show ?thesis using step k by simp
  qed
qed

lemma from_be_bound: "from_be bs < 256 ^ length bs"
proof (induction bs rule: rev_induct)
  case Nil
  then show ?case by (simp add: from_be_def)
next
  case (snoc b bs)
  have "unat b < 256" using unsigned_less [of b, where ?'a = nat] by simp
  then have "from_be bs * 256 + unat b < (from_be bs + 1) * 256" by simp
  also have "\<dots> \<le> 256 ^ length bs * 256"
    using snoc by (intro mult_le_mono1) simp
  finally show ?case by (simp add: from_be_append)
qed

lemma from_be_Cons_pos: "b \<noteq> 0 \<Longrightarrow> from_be (b # bs) \<noteq> 0"
proof (induction bs rule: rev_induct)
  case Nil
  then show ?case by (simp add: from_be_def unat_eq_0)
next
  case (snoc x xs)
  then have "from_be ((b # xs) @ [x]) \<noteq> 0"
    unfolding from_be_append by simp
  then show ?case by simp
qed

lemma to_be_from_be: "bs = [] \<or> hd bs \<noteq> 0 \<Longrightarrow> to_be (from_be bs) = bs"
proof (induction bs rule: rev_induct)
  case Nil
  then show ?case by (simp add: from_be_def to_be_eq_Nil)
next
  case (snoc x xs)
  have ub: "unat x < 256" using unsigned_less [of x, where ?'a = nat] by simp
  have hx: "xs = [] \<or> hd xs \<noteq> 0" using snoc(2) by (cases xs) auto
  have nz: "from_be (xs @ [x]) \<noteq> 0"
  proof (cases xs)
    case Nil
    then show ?thesis using snoc(2) by (simp add: from_be_def unat_eq_0)
  next
    case (Cons a list)
    then have "a \<noteq> 0" using snoc(2) by simp
    then have "from_be ((a # list) @ [x]) \<noteq> 0" using from_be_Cons_pos [of a "list @ [x]"] by simp
    then show ?thesis using Cons by simp
  qed
  have d: "from_be (xs @ [x]) div 256 = from_be xs" and m: "from_be (xs @ [x]) mod 256 = unat x"
    using ub by (simp_all add: from_be_append)
  have "to_be (from_be (xs @ [x])) = to_be (from_be xs) @ [of_nat (unat x)]"
    using nz by (subst to_be.simps) (simp add: d m)
  then show ?case using snoc(1) [OF hx] by simp
qed

lemma read_length_to_be:
  assumes "55 < len"
  shows "read_length (length (to_be len)) (to_be len @ rest) = Inr (len, rest)"
proof -
  have nz: "len \<noteq> 0" using assms by simp
  then obtain b bs where lb: "to_be len = b # bs"
    using to_be_eq_Nil [of len] by (cases "to_be len") auto
  have "b \<noteq> 0" using hd_to_be [OF nz] lb by simp
  moreover have "from_be (b # bs) = len" using from_be_to_be [of len] lb by simp
  ultimately show ?thesis using assms lb by (simp add: read_length_def)
qed

lemma length_to_be_range:
  assumes "55 < len" "len < 2 ^ 64"
  shows "1 \<le> length (to_be len)" "length (to_be len) \<le> 8"
proof -
  have "to_be len \<noteq> []" using assms(1) to_be_eq_Nil [of len] by simp
  then show "1 \<le> length (to_be len)" by (cases "to_be len") auto
  have "len < 256 ^ 8" using assms(2) by simp
  then show "length (to_be len) \<le> 8" by (rule length_to_be_bound)
qed

lemma read_header_prefix:
  assumes "n < 256"
  shows "read_header (of_nat n # rest) =
     (if n < 0x80 then Inl InvalidRlpDataError
      else if n \<le> 0xb7 then Inr (False, n - 0x80, rest)
      else if n \<le> 0xbf then
        (case read_length (n - 0xb7) rest of
           Inl e \<Rightarrow> Inl e
         | Inr (len, rest') \<Rightarrow> Inr (False, len, rest'))
      else if n \<le> 0xf7 then Inr (True, n - 0xc0, rest)
      else
        (case read_length (n - 0xf7) rest of
           Inl e \<Rightarrow> Inl e
         | Inr (len, rest') \<Rightarrow> Inr (True, len, rest')))"
  using unat_of_nat_byte [OF assms] by (simp add: read_header_def Let_def)

lemma read_header_encode_bytes:
  assumes "len < 2 ^ 64"
  shows "read_header (encode_length len 0x80 @ rest) = Inr (False, len, rest)"
proof (cases "len \<le> 55")
  case True
  define n where "n = 0x80 + len"
  have e: "encode_length len 0x80 @ rest = of_nat n # rest"
    using True by (simp add: encode_length_def n_def)
  have b: "n < 256" "\<not> n < 0x80" "n \<le> 0xb7" "n - 0x80 = len"
    using True by (simp_all add: n_def)
  show ?thesis unfolding e read_header_prefix [OF b(1)] using b by simp
next
  case False
  then have gt: "55 < len" by simp
  let ?l = "length (to_be len)"
  have l: "1 \<le> ?l" "?l \<le> 8" using length_to_be_range [OF gt assms] .
  define n where "n = 0x80 + 55 + ?l"
  have e: "encode_length len 0x80 @ rest = of_nat n # (to_be len @ rest)"
    using False by (simp add: encode_length_def n_def)
  have b: "n < 256" "\<not> n < 0x80" "\<not> n \<le> 0xb7" "n \<le> 0xbf" "n - 0xb7 = ?l"
    using l by (auto simp: n_def)
  show ?thesis unfolding e read_header_prefix [OF b(1)]
    using b read_length_to_be [OF gt, of rest] by simp
qed

lemma read_header_encode_list:
  assumes "len < 2 ^ 64"
  shows "read_header (encode_length len 0xc0 @ rest) = Inr (True, len, rest)"
proof (cases "len \<le> 55")
  case True
  define n where "n = 0xc0 + len"
  have e: "encode_length len 0xc0 @ rest = of_nat n # rest"
    using True by (simp add: encode_length_def n_def)
  have b: "n < 256" "\<not> n < 0x80" "\<not> n \<le> 0xb7" "\<not> n \<le> 0xbf" "n \<le> 0xf7" "n - 0xc0 = len"
    using True by (simp_all add: n_def)
  show ?thesis unfolding e read_header_prefix [OF b(1)] using b by simp
next
  case False
  then have gt: "55 < len" by simp
  let ?l = "length (to_be len)"
  have l: "1 \<le> ?l" "?l \<le> 8" using length_to_be_range [OF gt assms] .
  define n where "n = 0xc0 + 55 + ?l"
  have e: "encode_length len 0xc0 @ rest = of_nat n # (to_be len @ rest)"
    using False by (simp add: encode_length_def n_def)
  have b: "n < 256" "\<not> n < 0x80" "\<not> n \<le> 0xb7" "\<not> n \<le> 0xbf" "\<not> n \<le> 0xf7"
    "n - 0xf7 = ?l"
    using l by (auto simp: n_def)
  show ?thesis unfolding e read_header_prefix [OF b(1)]
    using b read_length_to_be [OF gt, of rest] by simp
qed

lemma encode_length_nonempty: "encode_length len off \<noteq> []"
  by (simp add: encode_length_def)

lemma rlp_encode_nonempty: "rlp_encode x \<noteq> []"
  by (cases x) (simp_all add: encode_length_nonempty Let_def)

lemma decode_list_items:
  assumes "\<And>x rest. x \<in> set xs \<Longrightarrow> decode_item (rlp_encode x @ rest) = Inr (x, rest)"
  shows "decode_list (concat (map rlp_encode xs)) = Inr xs"
  using assms
proof (induction xs)
  case Nil
  then show ?case by (simp add: decode_list.simps)
next
  case (Cons x xs)
  let ?rest = "concat (map rlp_encode xs)"
  have d: "decode_item (rlp_encode x @ ?rest) = Inr (x, ?rest)" using Cons.prems by simp
  have r: "decode_list ?rest = Inr xs" using Cons by simp
  have ne: "rlp_encode x @ ?rest \<noteq> []" using rlp_encode_nonempty by simp
  have lt: "length ?rest < length (rlp_encode x @ ?rest)"
    using rlp_encode_nonempty [of x] by (cases "rlp_encode x") auto
  show ?case
    using ne lt by (subst decode_list.simps) (simp add: d r)
qed

lemma decode_item_encode: "rlp_ok x \<Longrightarrow> decode_item (rlp_encode x @ rest) = Inr (x, rest)"
proof (induction x arbitrary: rest)
  case (RlpBytes bs)
  then have "read_header (rlp_encode (RlpBytes bs) @ rest) = Inr (False, length bs, bs @ rest)"
    using read_header_encode_bytes [of "length bs" "bs @ rest"] by simp
  then show ?case by (subst decode_item.simps) simp
next
  case (RlpList xs)
  let ?p = "concat (map rlp_encode xs)"
  have len: "length ?p < 2 ^ 64" using RlpList.prems by simp
  have h: "read_header (rlp_encode (RlpList xs) @ rest) = Inr (True, length ?p, ?p @ rest)"
    using read_header_encode_list [OF len, of "?p @ rest"] by (simp add: Let_def)
  have "decode_list ?p = Inr xs"
    by (rule decode_list_items) (use RlpList in auto)
  then show ?case using h by (subst decode_item.simps) simp
qed

lemma rlp_decode_encode: "rlp_ok x \<Longrightarrow> rlp_decode (rlp_encode x) = Inr x"
  using decode_item_encode [of x "[]"] by (simp add: rlp_decode_def)

lemma read_length_canonical:
  assumes "read_length lol r = Inr (len, rest)"
  shows "r = to_be len @ rest" "length (to_be len) = lol" "55 < len" "len < 256 ^ lol"
proof -
  from assms have ge: "lol \<le> length r"
    by (auto simp: read_length_def split: if_splits)
  from assms obtain b bs where t: "take lol r = b # bs"
    by (auto simp: read_length_def split: if_splits list.splits)
  from assms t ge have f: "b \<noteq> 0" "len = from_be (b # bs)" "55 < from_be (b # bs)" "rest = drop lol r"
    by (auto simp: read_length_def split: if_splits)
  have tb: "to_be len = take lol r"
    using to_be_from_be [of "b # bs"] f(1,2) t by simp
  show "r = to_be len @ rest" using tb f(4) by simp
  show "length (to_be len) = lol" using tb ge by simp
  show "55 < len" using f by simp
  have "length (take lol r) = lol" using ge by simp
  moreover have "from_be (take lol r) < 256 ^ length (take lol r)" by (rule from_be_bound)
  ultimately have "from_be (take lol r) < 256 ^ lol" by simp
  then show "len < 256 ^ lol" unfolding f(2) t .
qed

lemma pow256_le: "lol \<le> 8 \<Longrightarrow> (256::nat) ^ lol \<le> 2 ^ 64"
proof -
  assume "lol \<le> 8"
  then have "(256::nat) ^ lol \<le> 256 ^ 8" by (intro power_increasing) simp_all
  then show ?thesis by simp
qed

lemma read_header_canonical:
  assumes "read_header bs = Inr (is_list, len, rest)"
  shows "bs = encode_length len (if is_list then 0xc0 else 0x80) @ rest" "len < 2 ^ 64"
proof -
  from assms obtain p r where bs: "bs = p # r"
    by (cases bs) (auto simp: read_header_def)
  define n where "n = unat p"
  have p: "p = of_nat n" by (simp add: n_def)
  have n: "n < 256" using unsigned_less [of p, where ?'a = nat] by (simp add: n_def)
  have rh: "(if n < 0x80 then Inl InvalidRlpDataError
      else if n \<le> 0xb7 then Inr (False, n - 0x80, r)
      else if n \<le> 0xbf then
        (case read_length (n - 0xb7) r of
           Inl e \<Rightarrow> Inl e
         | Inr (len, rest') \<Rightarrow> Inr (False, len, rest'))
      else if n \<le> 0xf7 then Inr (True, n - 0xc0, r)
      else
        (case read_length (n - 0xf7) r of
           Inl e \<Rightarrow> Inl e
         | Inr (len, rest') \<Rightarrow> Inr (True, len, rest'))) = Inr (is_list, len, rest)"
    using assms read_header_prefix [OF n, of r] by (simp add: bs p)
  have ge: "\<not> n < 0x80" using rh by (auto split: if_splits)
  consider (ss) "n \<le> 0xb7" | (ls) "0xb7 < n" "n \<le> 0xbf" | (sl) "0xbf < n" "n \<le> 0xf7" | (ll) "0xf7 < n"
    by linarith
  then have "bs = encode_length len (if is_list then 0xc0 else 0x80) @ rest \<and> len < 2 ^ 64"
  proof cases
    case ss
    then have v: "is_list = False" "len = n - 0x80" "rest = r" using rh ge by (auto split: if_splits)
    have "0x80 + len = n" "len \<le> 55" using v ss ge by simp_all
    then have "encode_length len 0x80 = [of_nat n]"
      by (simp add: encode_length_def del: of_nat_add)
    then show ?thesis using v bs p \<open>len \<le> 55\<close> by simp
  next
    case ls
    then obtain rl where rl: "read_length (n - 0xb7) r = Inr (len, rest)" and v: "is_list = False"
      using rh ge by (auto split: if_splits sum.splits)
    note c = read_length_canonical [OF rl]
    have "0x80 + 55 + length (to_be len) = n" using c(2) ls by simp
    then have "of_nat (0x80 + 55 + length (to_be len)) = (of_nat n :: byte)" by (rule arg_cong)
    then have "encode_length len 0x80 = of_nat n # to_be len"
      using c(3) by (simp add: encode_length_def)
    moreover have "n - 0xb7 \<le> 8" using ls by simp
    then have "len < 2 ^ 64" using c(4) pow256_le [of "n - 0xb7"] by linarith
    ultimately show ?thesis using v bs p c(1) by simp
  next
    case sl
    then have v: "is_list = True" "len = n - 0xc0" "rest = r" using rh ge by (auto split: if_splits)
    have "0xc0 + len = n" "len \<le> 55" using v sl by simp_all
    then have "of_nat (0xc0 + len) = (of_nat n :: byte)" by simp
    then have "encode_length len 0xc0 = [of_nat n]"
      using \<open>len \<le> 55\<close> by (simp add: encode_length_def)
    then show ?thesis using v bs p \<open>len \<le> 55\<close> by simp
  next
    case ll
    then obtain rl where rl: "read_length (n - 0xf7) r = Inr (len, rest)" and v: "is_list = True"
      using rh ge by (auto split: if_splits sum.splits)
    note c = read_length_canonical [OF rl]
    have "0xc0 + 55 + length (to_be len) = n" using c(2) ll by simp
    then have "of_nat (0xc0 + 55 + length (to_be len)) = (of_nat n :: byte)" by (rule arg_cong)
    then have "encode_length len 0xc0 = of_nat n # to_be len"
      using c(3) by (simp add: encode_length_def)
    moreover have "n - 0xf7 \<le> 8" using ll n by simp
    then have "len < 2 ^ 64" using c(4) pow256_le [of "n - 0xf7"] by linarith
    ultimately show ?thesis using v bs p c(1) by simp
  qed
  then show "bs = encode_length len (if is_list then 0xc0 else 0x80) @ rest" "len < 2 ^ 64"
    by simp_all
qed

lemma decode_canonical:
  "(\<forall>x rest. decode_item bs = Inr (x, rest) \<longrightarrow> bs = rlp_encode x @ rest \<and> rlp_ok x)"
  "(\<forall>xs. decode_list cs = Inr xs \<longrightarrow> cs = concat (map rlp_encode xs) \<and> (\<forall>x \<in> set xs. rlp_ok x))"
proof (induction bs and cs rule: decode_item_decode_list.induct)
  case (1 bs)
  show ?case
  proof (intro allI impI)
    fix x rest assume d: "decode_item bs = Inr (x, rest)"
    then obtain is_list len r where h: "read_header bs = Inr (is_list, len, r)"
      by (subst (asm) decode_item.simps) (auto split: sum.splits)
    note c = read_header_canonical [OF h]
    from d h have le: "\<not> length r < len"
      by (subst (asm) decode_item.simps) (auto split: if_splits)
    show "bs = rlp_encode x @ rest \<and> rlp_ok x"
    proof (cases is_list)
      case False
      with d h le have "x = RlpBytes (take len r)" "rest = drop len r"
        by (subst (asm) decode_item.simps, simp)+
      then show ?thesis using c False le by simp
    next
      case True
      with d h le obtain xs where xs: "decode_list (take len r) = Inr xs"
        "x = RlpList xs" "rest = drop len r"
        by (subst (asm) decode_item.simps) (auto split: sum.splits)
      have "take len r = concat (map rlp_encode xs) \<and> (\<forall>x \<in> set xs. rlp_ok x)"
        using 1 [OF h refl refl le] True xs(1) by simp
      then have p: "take len r = concat (map rlp_encode xs)" "\<forall>x \<in> set xs. rlp_ok x" by simp_all
      have "length (concat (map rlp_encode xs)) = len" using p(1) le
        by (metis length_take min_absorb2 not_less)
      then show ?thesis using c True xs p
        by (simp add: Let_def) (metis append_take_drop_id)
    qed
  qed
next
  case (2 bs)
  show ?case
  proof (intro allI impI)
    fix xs assume d: "decode_list bs = Inr xs"
    show "bs = concat (map rlp_encode xs) \<and> (\<forall>x \<in> set xs. rlp_ok x)"
    proof (cases "bs = []")
      case True
      with d show ?thesis by (subst (asm) decode_list.simps) auto
    next
      case False
      with d obtain x rest ys where s: "decode_item bs = Inr (x, rest)" "length rest < length bs"
        "decode_list rest = Inr ys" "xs = x # ys"
        by (subst (asm) decode_list.simps) (auto split: sum.splits if_splits)
      have a: "bs = rlp_encode x @ rest \<and> rlp_ok x" using 2(1) [OF False] s(1) by simp
      have b: "rest = concat (map rlp_encode ys) \<and> (\<forall>x \<in> set ys. rlp_ok x)"
        using 2(2) [OF False s(1) refl s(2)] s(3) by simp
      from a b s(4) show ?thesis by simp
    qed
  qed
qed

lemma read_length_non_minimal:
  assumes "length lb = lol" "0 < lol" "hd lb = 0 \<or> from_be lb \<le> 55"
  shows "read_length lol (lb @ rest) = Inl InvalidRlpDataError"
proof -
  from assms(1,2) obtain b bs where lb: "lb = b # bs" by (cases lb) auto
  have "take lol (lb @ rest) = b # bs" using assms(1) lb by auto
  then show ?thesis using assms(1,3) lb by (simp add: read_length_def)
qed

lemma rlp_decode_non_minimal:
  assumes "0xb7 < unat p \<and> unat p \<le> 0xbf \<and> length lb = unat p - 0xb7 \<or>
           0xf7 < unat p \<and> length lb = unat p - 0xf7"
    and "hd lb = 0 \<or> from_be lb \<le> 55"
  shows "rlp_decode (p # lb @ rest) = Inl InvalidRlpDataError"
proof -
  have "read_header (p # lb @ rest) = Inl InvalidRlpDataError"
    using assms(1)
  proof
    assume a: "0xb7 < unat p \<and> unat p \<le> 0xbf \<and> length lb = unat p - 0xb7"
    then have "read_length (unat p - 0xb7) (lb @ rest) = Inl InvalidRlpDataError"
      using read_length_non_minimal [of lb "unat p - 0xb7" rest] assms(2) by simp
    then show ?thesis using a by (simp add: read_header_def Let_def)
  next
    assume a: "0xf7 < unat p \<and> length lb = unat p - 0xf7"
    then have "read_length (unat p - 0xf7) (lb @ rest) = Inl InvalidRlpDataError"
      using read_length_non_minimal [of lb "unat p - 0xf7" rest] assms(2) by simp
    then show ?thesis using a by (simp add: read_header_def Let_def)
  qed
  then have "decode_item (p # lb @ rest) = Inl InvalidRlpDataError"
    by (subst decode_item.simps) simp
  then show ?thesis by (simp add: rlp_decode_def)
qed

text \<open>
  C5. Decoding the encoding of an item returns the item (for payloads below \<open>2 ^ 64\<close>
  bytes, which is what a length prefix can express). Decoding accepts only canonical input:
  what it accepts begins with the encoding of the item it returns, and an input whose
  long-tier length has a leading zero byte or fits the short tier fails with
  \<open>InvalidRlpDataError\<close>.
\<close>

theorem rlp_roundtrip_canonical:
  "(rlp_ok item \<longrightarrow> rlp_decode (rlp_encode item) = Inr item) \<and>
   (\<forall>bs x. rlp_decode bs = Inr x \<longrightarrow> (\<exists>rest. bs = rlp_encode x @ rest)) \<and>
   (\<forall>p lb rest.
      (0xb7 < unat p \<and> unat p \<le> 0xbf \<and> length lb = unat p - 0xb7 \<or>
       0xf7 < unat p \<and> length lb = unat p - 0xf7) \<and>
      (hd lb = 0 \<or> from_be lb \<le> 55) \<longrightarrow>
      rlp_decode (p # lb @ rest) = Inl InvalidRlpDataError)"
proof (intro conjI allI impI)
  assume "rlp_ok item"
  then show "rlp_decode (rlp_encode item) = Inr item" by (rule rlp_decode_encode)
next
  fix bs x assume "rlp_decode bs = Inr x"
  then obtain rest where "decode_item bs = Inr (x, rest)"
    by (auto simp: rlp_decode_def split: sum.splits)
  then have "bs = rlp_encode x @ rest" using decode_canonical(1) [of bs] by simp
  then show "\<exists>rest. bs = rlp_encode x @ rest" by blast
next
  fix p :: byte and lb rest :: bytes
  assume "(0xb7 < unat p \<and> unat p \<le> 0xbf \<and> length lb = unat p - 0xb7 \<or>
       0xf7 < unat p \<and> length lb = unat p - 0xf7) \<and>
      (hd lb = 0 \<or> from_be lb \<le> 55)"
  then show "rlp_decode (p # lb @ rest) = Inl InvalidRlpDataError"
    using rlp_decode_non_minimal [of p lb rest] by blast
qed

theorem rlp_roundtrip_canonical_witness:
  "rlp_ok (RlpList [RlpBytes [], RlpList [], RlpBytes [0]]) \<and>
   rlp_encode (RlpList [RlpBytes [], RlpList [], RlpBytes [0]]) = [0xc4, 0x80, 0xc0, 0x81, 0x00] \<and>
   rlp_decode [0xc4, 0x80, 0xc0, 0x81, 0x00] = Inr (RlpList [RlpBytes [], RlpList [], RlpBytes [0]]) \<and>
   rlp_decode [0x85, 1, 2, 3, 4, 5] = Inr (RlpBytes [1, 2, 3, 4, 5]) \<and>
   rlp_decode [0xb8, 5, 1, 2, 3, 4, 5] = Inl InvalidRlpDataError"
proof -
  let ?item = "RlpList [RlpBytes [], RlpList [], RlpBytes [0]]"
  have e: "rlp_encode ?item = [0xc4, 0x80, 0xc0, 0x81, 0x00]"
    by (simp add: encode_length_def)
  have ok: "rlp_ok ?item"
    by (simp add: encode_length_def)
  note t = rlp_roundtrip_canonical [of ?item]
  from t have "rlp_ok ?item \<longrightarrow> rlp_decode (rlp_encode ?item) = Inr ?item"
    by (rule conjunct1)
  with ok have "rlp_decode (rlp_encode ?item) = Inr ?item" by (rule rev_mp)
  then have d: "rlp_decode [0xc4, 0x80, 0xc0, 0x81, 0x00] = Inr ?item"
    unfolding e .
  have c: "(0xb7 < unat (0xb8 :: byte) \<and> unat (0xb8 :: byte) \<le> 0xbf \<and>
            length [5 :: byte] = unat (0xb8 :: byte) - 0xb7 \<or>
            0xf7 < unat (0xb8 :: byte) \<and> length [5 :: byte] = unat (0xb8 :: byte) - 0xf7) \<and>
           (hd [5 :: byte] = 0 \<or> from_be [5] \<le> 55)"
    by (simp add: from_be_def)
  have "rlp_decode (0xb8 # [5] @ [1, 2, 3, 4, 5]) = Inl InvalidRlpDataError"
    using t [THEN conjunct2, THEN conjunct2, rule_format, OF c] .
  then have n: "rlp_decode [0xb8, 5, 1, 2, 3, 4, 5] = Inl InvalidRlpDataError" by simp
  have s: "rlp_decode [0x85, 1, 2, 3, 4, 5] = Inr (RlpBytes [1, 2, 3, 4, 5])"
    by (simp add: rlp_decode_def decode_item.simps read_header_def)
  from ok e d s n show ?thesis by simp
qed

section \<open>Contract addresses\<close>

lemma hex_pairs_total:
  "list_all is_hex_digit cs \<Longrightarrow> even (length cs) \<Longrightarrow>
   \<exists>bs. hex_pairs cs = Inr bs \<and> length bs = length cs div 2"
  by (induction cs rule: hex_pairs.induct) auto

lemma from_hex_address:
  assumes "isAddress a"
  shows "\<exists>bs. from_hex a = Inr bs \<and> length bs = 20"
proof -
  from assms have "list_all is_hex_digit (drop 2 a)" "length (drop 2 a) = 40" "take 2 a = ''0x''"
    by (simp_all add: isAddress_def)
  then show ?thesis using hex_pairs_total [of "drop 2 a"] by (simp add: from_hex_def)
qed

lemma to_be_0: "to_be 0 = []"
  by (simp add: to_be_eq_Nil)

lemma create_nonce_minimal:
  "(case number_to_bytes n of [] \<Rightarrow> number_to_bytes n
    | b # bs \<Rightarrow> if b = 0 then [] else number_to_bytes n) = to_be n"
proof (cases "n = 0")
  case True
  then show ?thesis by (simp add: number_to_bytes_def to_be_0)
next
  case False
  then obtain b bs where t: "to_be n = b # bs"
    using to_be_eq_Nil [of n] by (cases "to_be n") auto
  then have "b \<noteq> 0" using hd_to_be [OF False] by simp
  then show ?thesis using False t by (simp add: number_to_bytes_def)
qed

text \<open>
  C6. For a well-formed sender address and any nonce, \<open>getCreateAddress\<close> returns the last
  20 bytes of the hash (32 bytes) of the RLP encoding of the two-element list of the 20
  address bytes and the nonce in minimal big-endian form, where nonce 0 is the empty byte
  string.
\<close>

theorem getCreateAddress_rlp:
  assumes "isAddress sender"
    and "\<forall>x. length (keccak256 x) = 32"
  shows "\<exists>from_bytes h.
           from_hex sender = Inr from_bytes \<and> length from_bytes = 20 \<and>
           h = keccak256 (rlp_encode (RlpList [RlpBytes from_bytes, RlpBytes (to_be n)])) \<and>
           getCreateAddress keccak256 sender n = Inr (drop (length h - 20) h) \<and>
           length (drop (length h - 20) h) = 20 \<and>
           to_be 0 = []"
proof -
  from from_hex_address [OF assms(1)] obtain fb where fb: "from_hex sender = Inr fb" "length fb = 20"
    by blast
  define h where "h = keccak256 (rlp_encode (RlpList [RlpBytes fb, RlpBytes (to_be n)]))"
  have lh: "length h = 32" using assms(2) by (simp add: h_def)
  have "getCreateAddress keccak256 sender n = Inr (drop 12 h)"
    using assms(1) fb(1) create_nonce_minimal [of n]
    by (simp add: getCreateAddress_def getAddress_def Let_def h_def)
  then have "getCreateAddress keccak256 sender n = Inr (drop (length h - 20) h)"
    using lh by simp
  moreover have "length (drop (length h - 20) h) = 20" using lh by simp
  moreover have "to_be 0 = []" by (rule to_be_0)
  ultimately show ?thesis using fb h_def by blast
qed

theorem getCreateAddress_rlp_witness:
  "isAddress ''0xd8dA6BF26964aF9D7eEd9e03E53415D37aA96045'' \<and>
   (\<forall>x. length (ex_hash x) = 32) \<and>
   (\<exists>from_bytes h.
      from_hex ''0xd8dA6BF26964aF9D7eEd9e03E53415D37aA96045'' = Inr from_bytes \<and>
      h = ex_hash (rlp_encode (RlpList [RlpBytes from_bytes, RlpBytes (to_be 0)])) \<and>
      getCreateAddress ex_hash ''0xd8dA6BF26964aF9D7eEd9e03E53415D37aA96045'' 0
        = Inr (drop (length h - 20) h))"
proof -
  have a: "isAddress ''0xd8dA6BF26964aF9D7eEd9e03E53415D37aA96045''"
    by (simp add: isAddress_def is_hex_digit_def)
  have k: "\<forall>x. length (ex_hash x) = 32"
    by (auto simp: ex_hash_def min_def)
  from getCreateAddress_rlp [OF a k, of 0] a k show ?thesis by blast
qed

section \<open>Signature hashing\<close>






















lemma join_Cons: "ys \<noteq> [] \<Longrightarrow> join sep ((a # y) # ys) = a # join sep (y # ys)"
  by (cases ys) auto








section \<open>The batch scheduler\<close>

lemma flush_fields:
  "bucket (flush ex w st) = []"
  "registered (flush ex w st) = registered st"
  "invocations (flush ex w st) = invocations st @ [map snd (bucket st)]"
  by (simp_all add: flush_def Let_def)

lemma flush_resolved:
  "resolved (flush ex w st) = resolved st @
     (case ex (map snd (bucket st)) of
        Inl cause \<Rightarrow> map (\<lambda>(i, q). (i, Inl (w cause q))) (bucket st)
      | Inr rs \<Rightarrow> map (\<lambda>((i, q), r). (i, r)) (zip (bucket st) rs))"
  by (simp add: flush_def Let_def)

lemma map_fst_failure: "map fst (map (\<lambda>(i, q). (i, f q)) b) = map fst b"
  by (induction b) auto

lemma map_fst_failure_ids:
  "map (fst \<circ> (\<lambda>(i, q). (i, f q))) b = map fst b"
  by (induction b) auto

lemma map_fst_zip_outcome:
  "length rs = length b \<Longrightarrow> map fst (map (\<lambda>((i, q), r). (i, r)) (zip b rs)) = map fst b"
proof (induction b arbitrary: rs)
  case Nil
  then show ?case by simp
next
  case (Cons x b)
  then obtain r rs' where "rs = r # rs'" by (cases rs) auto
  with Cons show ?case by (cases x) simp
qed

lemma flush_resolved_ids:
  assumes "\<forall>reqs rs. ex reqs = Inr rs \<longrightarrow> length rs = length reqs"
  shows "map fst (resolved (flush ex w st)) = map fst (resolved st) @ map fst (bucket st)"
proof (cases "ex (map snd (bucket st))")
  case (Inl cause)
  have "map fst (map (\<lambda>(i, q). (i, Inl (w cause q))) (bucket st)) = map fst (bucket st)"
    by (rule map_fst_failure)
  then show ?thesis unfolding flush_resolved Inl by (simp del: map_map)
next
  case (Inr rs)
  with assms have "length rs = length (map snd (bucket st))" by blast
  then have "length rs = length (bucket st)" by simp
  then have "map fst (map (\<lambda>((i, q), r). (i, r)) (zip (bucket st) rs)) = map fst (bucket st)"
    by (rule map_fst_zip_outcome)
  then show ?thesis unfolding flush_resolved Inr by (simp del: map_map)
qed

lemma flush_resolved_failure:
  assumes "ex (map snd (bucket st)) = Inl cause"
  shows "resolved (flush ex w st) = resolved st @ map (\<lambda>(i, q). (i, Inl (w cause q))) (bucket st)"
  unfolding flush_resolved using assms by simp

lemma end_of_tick_ids:
  assumes "\<forall>reqs rs. ex reqs = Inr rs \<longrightarrow> length rs = length reqs" "ids_inv st"
  shows "ids_inv (end_of_tick ex w st)" and "registered (end_of_tick ex w st) = registered st"
proof -
  show "registered (end_of_tick ex w st) = registered st"
    by (simp add: end_of_tick_def flush_fields)
  show "ids_inv (end_of_tick ex w st)"
  proof (cases "bucket st = []")
    case True
    then show ?thesis using assms(2) by (simp add: end_of_tick_def)
  next
    case False
    then show ?thesis using assms(2) flush_resolved_ids [OF assms(1), of w st]
      by (simp add: end_of_tick_def ids_inv_def flush_fields)
  qed
qed

lemma ids_inv_append:
  assumes "ids_inv st"
  shows "ids_inv (st\<lparr>bucket := bucket st @ [(registered st, q)],
                      registered := Suc (registered st)\<rparr>)"
  using assms by (simp add: ids_inv_def)

lemma ids_inv_register:
  assumes "\<forall>reqs rs. ex reqs = Inr rs \<longrightarrow> length rs = length reqs" "ids_inv st"
  shows "ids_inv (register ss ex w q st) \<and> registered (register ss ex w q st) = Suc (registered st)"
proof (cases "ss (map snd (bucket st) @ [q])")
  case True
  let ?st1 = "end_of_tick ex w st"
  have r: "register ss ex w q st =
      ?st1\<lparr>bucket := bucket ?st1 @ [(registered ?st1, q)], registered := Suc (registered ?st1)\<rparr>"
    using True by (simp add: register_def Let_def)
  show ?thesis unfolding r
    using ids_inv_append [OF end_of_tick_ids(1) [OF assms], of w q] end_of_tick_ids(2) [OF assms, of w]
    by simp
next
  case False
  have r: "register ss ex w q st =
      st\<lparr>bucket := bucket st @ [(registered st, q)], registered := Suc (registered st)\<rparr>"
    using False by (simp add: register_def Let_def)
  show ?thesis unfolding r using ids_inv_append [OF assms(2), of q] by simp
qed

lemma ids_inv_fold:
  assumes "\<forall>reqs rs. ex reqs = Inr rs \<longrightarrow> length rs = length reqs" "ids_inv st"
  shows "ids_inv (fold (register ss ex w) qs st) \<and>
         registered (fold (register ss ex w) qs st) = registered st + length qs"
  using assms(2)
proof (induction qs arbitrary: st)
  case Nil
  then show ?case by simp
next
  case (Cons q qs)
  from ids_inv_register [OF assms(1) Cons.prems, of ss w q]
  have a: "ids_inv (register ss ex w q st)"
    and b: "registered (register ss ex w q st) = Suc (registered st)" by simp_all
  from Cons.IH [OF a] b show ?case by simp
qed

lemma run_tick_ids:
  fixes ex :: "'q list \<Rightarrow> 'c + ('c + 'd) list"
  assumes "\<forall>reqs rs. ex reqs = Inr rs \<longrightarrow> length rs = length reqs"
  shows "map fst (resolved (run_tick ss ex w qs)) = [0..<length qs]"
    and "bucket (run_tick ss ex w qs) = []"
proof -
  let ?st = "fold (register ss ex w) qs (scheduler_init :: ('q, 'c, 'd) scheduler)"
  have i: "ids_inv (scheduler_init :: ('q, 'c, 'd) scheduler)"
    by (simp add: ids_inv_def scheduler_init_def)
  from ids_inv_fold [OF assms i, of ss w qs]
  have f: "ids_inv ?st" "registered ?st = length qs" by (simp_all add: scheduler_init_def)
  show "bucket (run_tick ss ex w qs) = []"
    by (simp add: run_tick_def end_of_tick_def flush_fields)
  show "map fst (resolved (run_tick ss ex w qs)) = [0..<length qs]"
  proof (cases "bucket ?st = []")
    case True
    then show ?thesis using f by (simp add: run_tick_def end_of_tick_def ids_inv_def)
  next
    case False
    then show ?thesis using f flush_resolved_ids [OF assms, of w ?st]
      by (simp add: run_tick_def end_of_tick_def ids_inv_def)
  qed
qed

lemma count_upt: "i < n \<Longrightarrow> length (filter (\<lambda>j. j = i) [0..<n]) = 1"
proof (induction n)
  case 0
  then show ?case by simp
next
  case (Suc n)
  then show ?case by (cases "i = n") auto
qed

text \<open>
  C8. Under the executor contract (a successful aggregate response has one outcome per
  request), every pending call registered in a tick receives exactly one resolution: the
  resolver numbers of the delivered resolutions are \<open>0, ..., n - 1\<close>, each once, and no
  call is left in a bucket. When the executor fails outright on a flush, the resolutions
  that flush delivers are the failure with that cause, one for each pending call of the
  bucket.
\<close>

theorem scheduler_resolves_exactly_once:
  assumes "\<forall>reqs rs. executor reqs = Inr rs \<longrightarrow> length rs = length reqs"
  shows "map fst (resolved (run_tick should_split executor wrap qs)) = [0..<length qs] \<and>
         (\<forall>i<length qs.
            length (filter (\<lambda>x. fst x = i) (resolved (run_tick should_split executor wrap qs))) = 1) \<and>
         bucket (run_tick should_split executor wrap qs) = [] \<and>
         (\<forall>st cause. executor (map snd (bucket st)) = Inl cause \<longrightarrow>
            resolved (flush executor wrap st) =
              resolved st @ map (\<lambda>(i, q). (i, Inl (wrap cause q))) (bucket st))"
proof -
  let ?r = "resolved (run_tick should_split executor wrap qs)"
  have ids: "map fst ?r = [0..<length qs]" by (rule run_tick_ids(1) [OF assms])
  have "\<forall>i<length qs. length (filter (\<lambda>x. fst x = i) ?r) = 1"
  proof (intro allI impI)
    fix i assume i: "i < length qs"
    have "length (filter (\<lambda>x. fst x = i) ?r) = length (filter (\<lambda>j. j = i) (map fst ?r))"
      by (simp add: filter_map comp_def)
    then show "length (filter (\<lambda>x. fst x = i) ?r) = 1"
      using count_upt [OF i] ids by simp
  qed
  moreover have "\<forall>st cause. executor (map snd (bucket st)) = Inl cause \<longrightarrow>
            resolved (flush executor wrap st) =
              resolved st @ map (\<lambda>(i, q). (i, Inl (wrap cause q))) (bucket st)"
    by (intro allI impI) (rule flush_resolved_failure)
  moreover note ids run_tick_ids(2) [OF assms, of should_split wrap qs]
  ultimately show ?thesis by (intro conjI)
qed

theorem scheduler_resolves_exactly_once_witness:
  "ex_executor [(''0xaabbcc'', ''0xA0'')] = Inr [Inr ''0xaabbcc''] \<and>
   map fst (resolved (run_tick (multicall_split 4) ex_executor (\<lambda>c q. c)
      [(''0xaabbcc'', ''0xA0''), (''0xddeeff'', ''0xA1''), (''0x11'', ''0xA2'')])) = [0, 1, 2] \<and>
   resolved (flush ex_failing (\<lambda>c q. c @ '' calling '' @ snd q)
      \<lparr>bucket = [(0, (''0xaabbcc'', ''0xA0'')), (1, (''0xddeeff'', ''0xA1''))],
       registered = 2, invocations = [], resolved = []\<rparr>)
     = [(0, Inl ''timeout calling 0xA0''), (1, Inl ''timeout calling 0xA1'')]"
proof -
  have c: "\<forall>reqs rs. ex_executor reqs = Inr rs \<longrightarrow> length rs = length reqs"
    by (auto simp: ex_executor_def)
  note t = scheduler_resolves_exactly_once [OF c, of "multicall_split 4" "\<lambda>c q. c"
      "[(''0xaabbcc'', ''0xA0''), (''0xddeeff'', ''0xA1''), (''0x11'', ''0xA2'')]"]
  have u: "[0..<length [(''0xaabbcc'', ''0xA0''), (''0xddeeff'', ''0xA1''), (''0x11'', ''0xA2'')]]
      = [0, 1, 2]" by (simp add: upt_rec)
  have a: "map fst (resolved (run_tick (multicall_split 4) ex_executor (\<lambda>c q. c)
      [(''0xaabbcc'', ''0xA0''), (''0xddeeff'', ''0xA1''), (''0x11'', ''0xA2'')])) = [0, 1, 2]"
    using t [THEN conjunct1] unfolding u .
  have b: "resolved (flush ex_failing (\<lambda>c q. c @ '' calling '' @ snd q)
      \<lparr>bucket = [(0, (''0xaabbcc'', ''0xA0'')), (1, (''0xddeeff'', ''0xA1''))],
       registered = 2, invocations = [], resolved = []\<rparr>)
     = [(0, Inl ''timeout calling 0xA0''), (1, Inl ''timeout calling 0xA1'')]"
    by (simp add: flush_def ex_failing_def)
  have d: "ex_executor [(''0xaabbcc'', ''0xA0'')] = Inr [Inr ''0xaabbcc'']"
    by (simp add: ex_executor_def)
  from d a b show ?thesis by blast
qed

lemma crossing_snoc:
  "crossing ss (bs @ [b, c]) \<longleftrightarrow> crossing ss (bs @ [b]) \<and> c \<noteq> [] \<and> ss (b @ [hd c])"
  by (induction ss bs rule: crossing.induct) auto

lemma crossing_last:
  "crossing ss (bs @ [b]) \<Longrightarrow> b \<noteq> [] \<Longrightarrow> crossing ss (bs @ [b @ [q]])"
  by (induction ss bs rule: crossing.induct) auto

lemma split_inv_register:
  assumes "split_inv ss qs st"
  shows "split_inv ss (qs @ [q]) (register ss ex w q st)"
proof (cases "bucket st = []")
  case True
  with assms have i: "invocations st = []" "qs = []" by (simp_all add: split_inv_def)
  have e: "end_of_tick ex w st = st" using True by (simp add: end_of_tick_def)
  have r: "register ss ex w q st =
      st\<lparr>bucket := [(registered st, q)], registered := Suc (registered st)\<rparr>"
    using True by (simp add: register_def Let_def e)
  show ?thesis unfolding r using i by (simp add: split_inv_def fits_def)
next
  case False
  let ?B = "map snd (bucket st)"
  from assms False have i: "list_all (fits ss) (invocations st)" "fits ss ?B"
    "crossing ss (invocations st @ [?B])" "concat (invocations st) @ ?B = qs"
    by (simp_all add: split_inv_def)
  have ne: "?B \<noteq> []" using False by simp
  show ?thesis
  proof (cases "ss (?B @ [q])")
    case True
    have e: "end_of_tick ex w st = flush ex w st" using False by (simp add: end_of_tick_def)
    have r: "register ss ex w q st =
        (flush ex w st)\<lparr>bucket := [(registered st, q)], registered := Suc (registered st)\<rparr>"
      using True by (simp add: register_def Let_def e flush_fields)
    have c: "crossing ss (invocations st @ [?B, [q]])"
      using crossing_snoc [of ss "invocations st" ?B "[q]"] i(3) True by simp
    show ?thesis unfolding r using i c by (simp add: split_inv_def flush_fields fits_def)
  next
    case nosplit: False
    have r: "register ss ex w q st =
        st\<lparr>bucket := bucket st @ [(registered st, q)], registered := Suc (registered st)\<rparr>"
      using nosplit by (simp add: register_def Let_def)
    have c: "crossing ss (invocations st @ [?B @ [q]])"
      using crossing_last [OF i(3) ne] .
    show ?thesis unfolding r using i c nosplit by (simp add: split_inv_def fits_def)
  qed
qed

lemma split_inv_fold:
  assumes "split_inv ss ps st"
  shows "split_inv ss (ps @ qs) (fold (register ss ex w) qs st)"
  using assms
proof (induction qs arbitrary: st ps)
  case Nil
  then show ?case by simp
next
  case (Cons q qs)
  from split_inv_register [OF Cons.prems, of q ex w]
  have "split_inv ss (ps @ [q]) (register ss ex w q st)" .
  from Cons.IH [OF this] show ?case by simp
qed

lemma run_tick_batches:
  fixes ex :: "'q list \<Rightarrow> 'c + ('c + 'd) list"
  shows "concat (invocations (run_tick ss ex w qs)) = qs"
    and "list_all (fits ss) (invocations (run_tick ss ex w qs))"
    and "crossing ss (invocations (run_tick ss ex w qs))"
proof -
  let ?st = "fold (register ss ex w) qs (scheduler_init :: ('q, 'c, 'd) scheduler)"
  have "split_inv ss [] (scheduler_init :: ('q, 'c, 'd) scheduler)"
    by (simp add: split_inv_def scheduler_init_def)
  from split_inv_fold [OF this, of qs ex w]
  have i: "split_inv ss qs ?st" by simp
  have r: "invocations (run_tick ss ex w qs) =
      (if bucket ?st = [] then invocations ?st else invocations ?st @ [map snd (bucket ?st)])"
    by (simp add: run_tick_def end_of_tick_def flush_fields)
  show "concat (invocations (run_tick ss ex w qs)) = qs"
    unfolding r using i by (cases "bucket ?st = []") (simp_all add: split_inv_def scheduler_init_def)
  show "list_all (fits ss) (invocations (run_tick ss ex w qs))"
    unfolding r using i by (cases "bucket ?st = []") (simp_all add: split_inv_def scheduler_init_def)
  show "crossing ss (invocations (run_tick ss ex w qs))"
    unfolding r using i by (cases "bucket ?st = []") (simp_all add: split_inv_def scheduler_init_def)
qed

lemma single_batch:
  assumes "concat bs = qs" and "list_all (fits ss) bs" and "ss qs" and "2 \<le> length qs"
  shows "2 \<le> length bs"
proof (rule ccontr)
  assume "\<not> 2 \<le> length bs"
  then consider "bs = []" | b where "bs = [b]"
    by (cases bs; cases "tl bs") auto
  then show False
  proof cases
    case 1
    then show False using assms(1,4) by simp
  next
    case 2
    then have "b = qs" "fits ss b" using assms(1,2) by simp_all
    then show False using assms(3,4) by (simp add: fits_def)
  qed
qed

lemma fold_digits:
  "fold (\<lambda>d size. size + (int (length d) - 2)) ds a = a + (\<Sum>d \<leftarrow> ds. (int (length d) - 2))"
  by (induction ds arbitrary: a) simp_all

lemma multicall_split_digits:
  "multicall_split batchSize reqs \<longleftrightarrow>
     batchSize * 2 < (\<Sum>d \<leftarrow> map fst reqs. (int (length d) - 2))"
  by (simp add: multicall_split_def shouldSplitBatch_def fold_digits)

lemma no_split_bytes:
  assumes "\<not> multicall_split batchSize reqs"
  shows "calldata_bytes reqs \<le> batchSize"
proof -
  define n where "n = (\<Sum>d \<leftarrow> map fst reqs. (int (length d) - 2))"
  have "n \<le> batchSize * 2" using assms unfolding multicall_split_digits n_def by simp
  then have "n div 2 \<le> batchSize" by linarith
  then show ?thesis unfolding calldata_bytes_def n_def .
qed

lemma bytes_split:
  assumes "batchSize < calldata_bytes reqs"
  shows "multicall_split batchSize reqs"
proof -
  define n where "n = (\<Sum>d \<leftarrow> map fst reqs. (int (length d) - 2))"
  have "batchSize < n div 2" using assms unfolding calldata_bytes_def n_def .
  then have "batchSize * 2 < n" by linarith
  then show ?thesis unfolding multicall_split_digits n_def .
qed

text \<open>
  C7, as stated, fails in two ways. A call whose calldata exceeds the budget on its own, 6
  bytes against a budget of 4, is flushed by one invocation, in a batch that exceeds the
  budget. Three calls of 3 bytes against a budget of 4 are flushed by three invocations,
  not two.
\<close>

theorem split_oversized_call_counterexample:
  "invocations (run_tick (multicall_split 4) ex_executor (\<lambda>c q. c)
      [(''0xaabbccddeeff'', ''0xA0'')])
     = [[(''0xaabbccddeeff'', ''0xA0'')]] \<and>
   calldata_bytes [(''0xaabbccddeeff'', ''0xA0'')] = 6 \<and>
   multicall_split 4 [(''0xaabbccddeeff'', ''0xA0'')] \<and>
   invocations (run_tick (multicall_split 4) ex_executor (\<lambda>c q. c)
      [(''0xaabbcc'', ''0xA0''), (''0xddeeff'', ''0xA1''), (''0x112233'', ''0xA2'')])
     = [[(''0xaabbcc'', ''0xA0'')], [(''0xddeeff'', ''0xA1'')], [(''0x112233'', ''0xA2'')]]"
  by (simp add: run_tick_def register_def end_of_tick_def flush_def scheduler_init_def
      multicall_split_def shouldSplitBatch_def ex_executor_def calldata_bytes_def Let_def)

text \<open>
  C7, amended. When the calldata of the calls registered under one key in a tick, at
  least two, exceeds the byte budget together, the executor is invoked at least twice.
  The batches of the invocations carry the registered calls in order and none is empty;
  every batch respects the byte budget, unless it is a single call; and a batch ends only
  where the split predicate of \<open>scheduleMulticall\<close> holds of the batch with the next call,
  which would have taken it over the budget.
\<close>

theorem split_before_crossing:
  fixes executor :: "(hex \<times> address) list \<Rightarrow> 'c + ('c + 'd) list"
  assumes "batches = invocations (run_tick (multicall_split batchSize) executor wrap qs)"
  shows "concat batches = qs \<and>
         (\<forall>b \<in> set batches. b \<noteq> [] \<and> (length b = 1 \<or> calldata_bytes b \<le> batchSize)) \<and>
         crossing (multicall_split batchSize) batches \<and>
         (batchSize < calldata_bytes qs \<and> 2 \<le> length qs \<longrightarrow> 2 \<le> length batches)"
proof -
  note t = run_tick_batches [where ss = "multicall_split batchSize" and ex = executor
      and w = wrap and qs = qs]
  have c: "concat batches = qs" unfolding assms by (rule t(1))
  have f: "list_all (fits (multicall_split batchSize)) batches" unfolding assms by (rule t(2))
  have x: "crossing (multicall_split batchSize) batches" unfolding assms by (rule t(3))
  have f': "\<forall>b \<in> set batches. b \<noteq> [] \<and> (length b = 1 \<or> calldata_bytes b \<le> batchSize)"
  proof
    fix b assume "b \<in> set batches"
    then have "fits (multicall_split batchSize) b" using f by (simp add: list_all_iff)
    then show "b \<noteq> [] \<and> (length b = 1 \<or> calldata_bytes b \<le> batchSize)"
      using no_split_bytes [of batchSize b] by (auto simp: fits_def)
  qed
  have two: "batchSize < calldata_bytes qs \<and> 2 \<le> length qs \<longrightarrow> 2 \<le> length batches"
    using single_batch [OF c f] bytes_split [of batchSize qs] by blast
  from c f' x two show ?thesis by (intro conjI)
qed

theorem split_before_crossing_witness:
  "invocations (run_tick (multicall_split 4) ex_executor (\<lambda>c q. c)
      [(''0xaabbcc'', ''0xA0''), (''0xddeeff'', ''0xA1''), (''0x11'', ''0xA2'')])
     = [[(''0xaabbcc'', ''0xA0'')], [(''0xddeeff'', ''0xA1''), (''0x11'', ''0xA2'')]] \<and>
   calldata_bytes [(''0xaabbcc'', ''0xA0''), (''0xddeeff'', ''0xA1''), (''0x11'', ''0xA2'')] = 7 \<and>
   2 \<le> length (invocations (run_tick (multicall_split 4) ex_executor (\<lambda>c q. c)
      [(''0xaabbcc'', ''0xA0''), (''0xddeeff'', ''0xA1''), (''0x11'', ''0xA2'')])) \<and>
   concat (invocations (run_tick (multicall_split 4) ex_executor (\<lambda>c q. c)
      [(''0xaabbcc'', ''0xA0''), (''0xddeeff'', ''0xA1''), (''0x11'', ''0xA2'')]))
     = [(''0xaabbcc'', ''0xA0''), (''0xddeeff'', ''0xA1''), (''0x11'', ''0xA2'')] \<and>
   calldata_bytes [(''0xddeeff'', ''0xA1''), (''0x11'', ''0xA2'')] \<le> 4 \<and>
   multicall_split 4 [(''0xaabbcc'', ''0xA0''), (''0xddeeff'', ''0xA1'')]"
proof -
  let ?qs = "[(''0xaabbcc'', ''0xA0''), (''0xddeeff'', ''0xA1''), (''0x11'', ''0xA2'')]"
  let ?inv = "invocations (run_tick (multicall_split 4) ex_executor (\<lambda>c q. c) ?qs)"
  have ev: "?inv = [[(''0xaabbcc'', ''0xA0'')], [(''0xddeeff'', ''0xA1''), (''0x11'', ''0xA2'')]]"
    by (simp add: run_tick_def register_def end_of_tick_def flush_def scheduler_init_def
      multicall_split_def shouldSplitBatch_def ex_executor_def Let_def)
  have s: "calldata_bytes ?qs = 7" by (simp add: calldata_bytes_def)
  have s': "4 < calldata_bytes ?qs" unfolding s by simp
  have l: "2 \<le> length ?qs" by simp
  note t = split_before_crossing [OF refl, of 4 ex_executor "\<lambda>c q. c" ?qs]
  have c: "concat ?inv = ?qs" using t by (rule conjunct1)
  have n: "2 \<le> length ?inv" using t s' l by blast
  have "\<forall>b \<in> set ?inv. b \<noteq> [] \<and> (length b = 1 \<or> calldata_bytes b \<le> 4)"
    using t by blast
  then have p: "calldata_bytes [(''0xddeeff'', ''0xA1''), (''0x11'', ''0xA2'')] \<le> 4"
    unfolding ev by simp
  have "crossing (multicall_split 4) ?inv" using t by blast
  then have q: "multicall_split 4 [(''0xaabbcc'', ''0xA0''), (''0xddeeff'', ''0xA1'')]"
    unfolding ev by simp
  from ev s n c p q show ?thesis by blast
qed

section \<open>The ABI parameter codec\<close>

lemma from_be_zeros: "from_be (replicate k 0 @ bs) = from_be bs"
proof (induction k)
  case 0
  then show ?case by simp
next
  case (Suc k)
  have "from_be (0 # (replicate k 0 @ bs)) = from_be (replicate k 0 @ bs)"
    by (simp add: from_be_def)
  with Suc show ?case by simp
qed

lemma word32_Inr:
  assumes "word32 v = Inr w"
  shows "length w = 32" and "from_be w = v"
proof -
  from assms have le: "length (to_be v) \<le> 32" and w: "w = replicate (32 - length (to_be v)) 0 @ to_be v"
    by (auto simp: word32_def pad_left_def split: if_splits)
  show "length w = 32" using le w by simp
  show "from_be w = v" unfolding w by (simp add: from_be_zeros from_be_to_be)
qed

lemma word32_Inl: "word32 v = Inl e \<Longrightarrow> e = SizeOverflowError"
  by (auto simp: word32_def pad_left_def split: if_splits)

lemma word32_small: "v < 2 ^ 256 \<Longrightarrow> \<exists>w. word32 v = Inr w"
proof -
  assume "v < 2 ^ 256"
  then have "v < 256 ^ 32" by simp
  then have "length (to_be v) \<le> 32" by (rule length_to_be_bound)
  then show ?thesis by (simp add: word32_def pad_left_def)
qed

lemma read_word_at:
  assumes "word32 v = Inr w"
  shows "read_word (pre @ w @ rest) (length pre) = Inr v"
  using word32_Inr [OF assms] by (simp add: read_word_def)

lemma read_word_0:
  assumes "word32 v = Inr w"
  shows "read_word (w @ rest) 0 = Inr v"
  using read_word_at [OF assms, of "[]" rest] by simp

lemma pad32_arith: "((n::nat) + (32 - n mod 32) mod 32) mod 32 = 0"
proof (cases "n mod 32 = 0")
  case True
  then show ?thesis by simp
next
  case False
  define q where "q = n div 32"
  define r where "r = n mod 32"
  have n: "n = 32 * q + r" by (simp add: q_def r_def)
  have r: "0 < r" "r < 32" using False by (simp_all add: r_def)
  then have "(32 - r) mod 32 = 32 - r" by simp
  moreover have "n + (32 - r) = 32 * (q + 1)" using r n by simp
  ultimately have "(n + (32 - r) mod 32) mod 32 = 0" by simp
  then show ?thesis by (simp add: r_def)
qed

lemma length_pad32: "length (pad32 bs) mod 32 = 0"
  using pad32_arith [of "length bs"] by (simp add: pad32_def)

lemma take_pad32: "take (length bs) (pad32 bs @ rest) = bs"
  by (simp add: pad32_def)

lemma length_pad32_ge: "length bs \<le> length (pad32 bs)"
  by (simp add: pad32_def)

lemma char_of_byte_inverse: "char_of_byte (byte_of_char c) = c"
proof -
  have "unat (of_nat (of_char c) :: byte) = of_char c mod 256"
    by (simp only: unat_of_nat) simp
  also have "\<dots> = of_char c" by (rule of_char_mod_256)
  finally show ?thesis by (simp only: char_of_byte_def byte_of_char_def char_of_char)
qed

lemma twos_complement_general:
  fixes v h :: int
  assumes "- h \<le> v" "v < h"
  shows "(if v mod (2 * h) < h then v mod (2 * h) else v mod (2 * h) - 2 * h) = v"
proof (cases "0 \<le> v")
  case True
  then have "v mod (2 * h) = v" using assms(2) by (intro mod_pos_pos_trivial) simp_all
  then show ?thesis using assms(2) by simp
next
  case False
  have "(v + 2 * h) mod (2 * h) = v + 2 * h"
    using False assms by (intro mod_pos_pos_trivial) simp_all
  then have "v mod (2 * h) = v + 2 * h" by simp
  then show ?thesis using False assms(1) by simp
qed

lemma twos_complement_inverse:
  fixes v :: int
  assumes "- (2 ^ 255) \<le> v" "v < 2 ^ 255"
  shows "(if nat (v mod 2 ^ 256) < 2 ^ 255 then int (nat (v mod 2 ^ 256))
          else int (nat (v mod 2 ^ 256)) - 2 ^ 256) = v"
proof -
  define h :: int where "h = 2 ^ 255"
  have h2: "(2 :: int) ^ 256 = 2 * h" unfolding h_def by (simp only: power_Suc [symmetric]) simp
  have hp: "0 < h" unfolding h_def by (rule zero_less_power) simp
  have hn: "(2 :: nat) ^ 255 = nat h" unfolding h_def by (simp only: nat_power_eq nat_numeral zero_le_numeral)
  have a: "- h \<le> v" "v < h" using assms unfolding h_def by blast+
  have nn: "0 \<le> v mod (2 * h)" using hp by simp
  have lt: "(nat (v mod (2 * h)) < nat h) = (v mod (2 * h) < h)"
    using nn hp by (simp add: zless_nat_conj)
  have i: "int (nat (v mod (2 * h))) = v mod (2 * h)" using nn by simp
  show ?thesis
    unfolding h2 hn lt i by (rule twos_complement_general [OF a])
qed

lemma dec_body_atoms:
  "dec_body (TUint n) bs =
     (case read_word bs 0 of Inl e \<Rightarrow> Inl e | Inr w \<Rightarrow> Inr (VUint w))"
  "dec_body (TInt n) bs =
     (case read_word bs 0 of
        Inl e \<Rightarrow> Inl e
      | Inr w \<Rightarrow> Inr (VInt (if w < 2 ^ 255 then int w else int w - 2 ^ 256)))"
  "dec_body TAddress bs =
     (if length bs < 32 then Inl AbiDecodingDataSizeTooSmallError
      else Inr (VAddress (take 20 (drop 12 bs))))"
  "dec_body TBool bs =
     (case read_word bs 0 of Inl e \<Rightarrow> Inl e | Inr w \<Rightarrow> Inr (VBool (w \<noteq> 0)))"
  "dec_body (TFixedBytes n) bs =
     (if length bs < 32 then Inl AbiDecodingDataSizeTooSmallError
      else Inr (VFixedBytes (take n bs)))"
  "dec_body TBytes bs =
     (case read_word bs 0 of
        Inl e \<Rightarrow> Inl e
      | Inr len \<Rightarrow>
          if length bs < 32 + len then Inl AbiDecodingDataSizeTooSmallError
          else Inr (VBytes (take len (drop 32 bs))))"
  "dec_body TString bs =
     (case read_word bs 0 of
        Inl e \<Rightarrow> Inl e
      | Inr len \<Rightarrow>
          if length bs < 32 + len then Inl AbiDecodingDataSizeTooSmallError
          else Inr (VString (map char_of_byte (take len (drop 32 bs)))))"
  by (simp_all add: dec_body.simps)

lemma dec_body_composite:
  "dec_body (TTuple ts) bs =
     (case dec_seq ts bs 0 of Inl e \<Rightarrow> Inl e | Inr vs \<Rightarrow> Inr (VTuple vs))"
  "dec_body (TArray t None) bs =
     (case read_word bs 0 of
        Inl e \<Rightarrow> Inl e
      | Inr n \<Rightarrow>
          (case dec_rep t n (drop 32 bs) 0 of
             Inl e \<Rightarrow> Inl e
           | Inr vs \<Rightarrow> Inr (VArray vs)))"
  "dec_body (TArray t (Some n)) bs =
     (case dec_rep t n bs 0 of Inl e \<Rightarrow> Inl e | Inr vs \<Rightarrow> Inr (VArray vs))"
  by (simp_all add: dec_body.simps)

lemma dec_seq_simps:
  "dec_seq [] blk pos = Inr []"
  "dec_seq (t # ts) blk pos =
     (case dec_elem t blk pos of
        Inl e \<Rightarrow> Inl e
      | Inr v \<Rightarrow>
          (case dec_seq ts blk (pos + head_size t) of
             Inl e \<Rightarrow> Inl e
           | Inr vs \<Rightarrow> Inr (v # vs)))"
  by (simp_all add: dec_seq.simps)

lemma dec_rep_seq: "dec_rep t n blk pos = dec_seq (replicate n t) blk pos"
proof (induction n arbitrary: pos)
  case 0
  then show ?case by (simp add: dec_rep.simps dec_seq_simps)
next
  case (Suc n)
  show ?case by (subst dec_rep.simps) (simp add: dec_seq_simps Suc split: sum.splits)
qed

lemma encodes_uint:
  assumes "valid_value t (VUint v)"
  shows "encodes_or_overflows t (VUint v) (enc_body t (VUint v))"
proof -
  from assms obtain n where t: "t = TUint n" by (cases t) auto
  show ?thesis
  proof (cases "word32 v")
    case (Inl e)
    then show ?thesis using word32_Inl [OF Inl] by (simp add: t encodes_or_overflows_def)
  next
    case (Inr w)
    then show ?thesis using word32_Inr [OF Inr] read_word_0 [OF Inr]
      by (simp add: t encodes_or_overflows_def encodes_def dec_body_atoms)
  qed
qed

lemma pow_bits_le:
  fixes n :: nat
  assumes "8 \<le> n" "n \<le> 256"
  shows "(2 :: int) ^ (n - 1) \<le> 2 ^ 255"
  using assms by (intro power_increasing) simp_all

lemma encodes_int:
  assumes "valid_value t (VInt v)"
  shows "encodes_or_overflows t (VInt v) (enc_body t (VInt v))"
proof -
  from assms obtain n where t: "t = TInt n" by (cases t) auto
  from assms t have n: "8 \<le> n" "n \<le> 256" and r: "- (2 ^ (n - 1)) \<le> v" "v < 2 ^ (n - 1)"
    by simp_all
  have range: "- (2 ^ 255) \<le> v" "v < 2 ^ 255"
    using r pow_bits_le [OF n] by linarith+
  show ?thesis
  proof (cases "word32 (nat (v mod 2 ^ 256))")
    case (Inl e)
    then show ?thesis using word32_Inl [OF Inl] by (simp add: t encodes_or_overflows_def)
  next
    case (Inr w)
    have "dec_body (TInt n) (w @ rest) = Inr (VInt v)" for rest
      using read_word_0 [OF Inr, of rest] twos_complement_inverse [OF range]
      by (simp only: dec_body_atoms sum.case)
    then show ?thesis using word32_Inr(1) [OF Inr] Inr
      by (simp add: t encodes_or_overflows_def encodes_def)
  qed
qed

lemma encodes_address:
  assumes "valid_value t (VAddress a)"
  shows "encodes_or_overflows t (VAddress a) (enc_body t (VAddress a))"
proof -
  from assms have t: "t = TAddress" and a: "length a = 20" by (cases t; simp)+
  show ?thesis using a
    by (simp add: t encodes_or_overflows_def encodes_def pad_left_def dec_body_atoms)
qed

lemma encodes_bool:
  assumes "valid_value t (VBool b)"
  shows "encodes_or_overflows t (VBool b) (enc_body t (VBool b))"
proof -
  from assms have t: "t = TBool" by (cases t) auto
  show ?thesis
  proof (cases "word32 (if b then 1 else 0)")
    case (Inl e)
    then show ?thesis using word32_Inl [OF Inl] by (simp add: t encodes_or_overflows_def)
  next
    case (Inr w)
    then show ?thesis using word32_Inr [OF Inr] read_word_0 [OF Inr]
      by (simp add: t encodes_or_overflows_def encodes_def dec_body_atoms)
  qed
qed

lemma encodes_fixed_bytes:
  assumes "valid_value t (VFixedBytes bs)"
  shows "encodes_or_overflows t (VFixedBytes bs) (enc_body t (VFixedBytes bs))"
proof -
  from assms obtain n where t: "t = TFixedBytes n" by (cases t) auto
  from assms t have n: "n \<le> 32" "length bs = n" by simp_all
  show ?thesis using n
    by (simp add: t encodes_or_overflows_def encodes_def pad_right_def dec_body_atoms)
qed

lemma encodes_with_length:
  assumes "\<And>w rest. word32 n = Inr w \<Longrightarrow> dec_body t (w @ p @ rest) = Inr v"
    and "length p mod 32 = 0" and "is_dynamic t"
  shows "encodes_or_overflows t v (with_length n (Inr p))"
proof (cases "word32 n")
  case (Inl e)
  then show ?thesis using word32_Inl [OF Inl] by (simp add: with_length_def encodes_or_overflows_def)
next
  case (Inr w)
  have "length (w @ p) mod 32 = 0" using word32_Inr(1) [OF Inr] assms(2) by simp
  then show ?thesis using assms(1) [OF Inr] assms(3) Inr
    by (simp add: with_length_def encodes_or_overflows_def encodes_def)
qed

lemma encodes_bytes:
  assumes "valid_value t (VBytes bs)"
  shows "encodes_or_overflows t (VBytes bs) (enc_body t (VBytes bs))"
proof -
  from assms have t: "t = TBytes" by (cases t) auto
  have "dec_body TBytes (w @ pad32 bs @ rest) = Inr (VBytes bs)"
    if w: "word32 (length bs) = Inr w" for w rest
    using read_word_0 [OF w, of "pad32 bs @ rest"] word32_Inr(1) [OF w]
      length_pad32_ge [of bs] take_pad32 [of bs rest]
    by (simp add: dec_body_atoms)
  then show ?thesis unfolding t
    using encodes_with_length [of "length bs" TBytes "pad32 bs" "VBytes bs"] length_pad32 [of bs]
    by simp
qed

lemma encodes_string:
  assumes "valid_value t (VString s)"
  shows "encodes_or_overflows t (VString s) (enc_body t (VString s))"
proof -
  from assms have t: "t = TString" by (cases t) auto
  let ?bs = "map byte_of_char s"
  have m: "map char_of_byte ?bs = s" by (simp add: comp_def char_of_byte_inverse)
  have "dec_body TString (w @ pad32 ?bs @ rest) = Inr (VString s)"
    if w: "word32 (length s) = Inr w" for w rest
    using read_word_0 [OF w, of "pad32 ?bs @ rest"] word32_Inr(1) [OF w]
      length_pad32_ge [of ?bs] take_pad32 [of ?bs rest] m
    by (simp add: dec_body_atoms)
  then show ?thesis unfolding t
    using encodes_with_length [of "length s" TString "pad32 ?bs" "VString s"] length_pad32 [of ?bs]
    by simp
qed

lemma dec_elem_static:
  "\<not> is_dynamic t \<Longrightarrow> dec_elem t blk pos = dec_body t (drop pos blk)"
  by (simp add: dec_elem.simps)

lemma dec_elem_dynamic:
  "is_dynamic t \<Longrightarrow> dec_elem t blk pos =
     (case read_word blk pos of
        Inl e \<Rightarrow> Inl e
      | Inr off \<Rightarrow>
          if length blk < off then Inl AbiDecodingDataSizeTooSmallError
          else dec_body t (drop off blk))"
  by (simp add: dec_elem.simps)

lemma heads_tails_ok:
  "all3 encodes ts vs bodies \<Longrightarrow> seq_ok off ts vs (heads_tails off ts bodies)"
proof (induction ts arbitrary: vs bodies off)
  case Nil
  then have "vs = []" "bodies = []" by (cases vs; cases bodies; simp)+
  then show ?case by (simp add: seq_ok_def dec_seq_simps)
next
  case (Cons t ts vs0 bodies0)
  then obtain v vs b bs where vs0: "vs0 = v # vs" and bodies0: "bodies0 = b # bs"
    by (cases vs0; cases bodies0; simp)
  from Cons.prems have enc: "encodes t v b" and rest: "all3 encodes ts vs bs"
    by (simp_all add: vs0 bodies0)
  from enc have b32: "length b mod 32 = 0"
    and bst: "\<not> is_dynamic t \<Longrightarrow> length b = static_size t"
    and bdec: "\<And>rest. dec_body t (b @ rest) = Inr v"
    by (simp_all add: encodes_def)
  show ?case
  proof (cases "is_dynamic t")
    case True
    show ?thesis
    proof (cases "word32 off")
      case (Inl e)
      then show ?thesis using True word32_Inl [OF Inl] by (simp add: seq_ok_def vs0 bodies0)
    next
      case (Inr w)
      note w = word32_Inr [OF Inr]
      from Cons.IH [OF rest, of "off + length b"]
      have ih: "seq_ok (off + length b) ts vs (heads_tails (off + length b) ts bs)" .
      show ?thesis
      proof (cases "heads_tails (off + length b) ts bs")
        case (Inl e)
        then show ?thesis using ih True Inr by (simp add: seq_ok_def vs0 bodies0)
      next
        case r: (Inr ht)
        obtain h tail where ht: "ht = (h, tail)" by (cases ht)
        from ih r ht have "seq_ok (off + length b) ts vs (Inr (h, tail))" by simp
        then have c: "length h = sum_list (map head_size ts) \<and>
          length h mod 32 = 0 \<and> length tail mod 32 = 0 \<and>
          (\<not> list_ex is_dynamic ts \<longrightarrow> tail = []) \<and>
          (\<forall>pre mid rest. off + length b = length pre + length h + length mid \<longrightarrow>
             dec_seq ts (pre @ h @ mid @ tail @ rest) (length pre) = Inr vs)"
          unfolding seq_ok_def sum.case prod.case .
        from c have lh: "length h = sum_list (map head_size ts)" by blast
        from c have h32: "length h mod 32 = 0" by blast
        from c have t32: "length tail mod 32 = 0" by blast
        from c have dec: "\<And>pre mid rest. off + length b = length pre + length h + length mid \<Longrightarrow>
             dec_seq ts (pre @ h @ mid @ tail @ rest) (length pre) = Inr vs"
          by blast
        have res: "heads_tails off (t # ts) (b # bs) = Inr (w @ h, b @ tail)"
          using True Inr r ht by simp
        have l1: "length (w @ h) = sum_list (map head_size (t # ts))"
          using w(1) lh True by (simp add: head_size_def)
        have l2: "length (w @ h) mod 32 = 0" using w(1) h32 by simp
        have l3: "length (b @ tail) mod 32 = 0" using b32 t32 by (simp add: mod_add_eq [symmetric] del: mod_add_eq) 
        have d: "dec_seq (t # ts) (pre @ (w @ h) @ mid @ (b @ tail) @ rest) (length pre) = Inr (v # vs)"
          if o: "off = length pre + length (w @ h) + length mid" for pre mid rest
        proof -
          let ?blk = "pre @ (w @ h) @ mid @ (b @ tail) @ rest"
          have rw: "read_word ?blk (length pre) = Inr off"
            using read_word_at [OF Inr, of pre "h @ mid @ (b @ tail) @ rest"] by simp
          have dr: "drop off ?blk = b @ (tail @ rest)" using o by simp
          have le: "\<not> length ?blk < off" using o by simp
          have e: "dec_elem t ?blk (length pre) = Inr v"
            using True rw le dr bdec [of "tail @ rest"] by (simp add: dec_elem_dynamic)
          have "off + length b = length (pre @ w) + length h + length (mid @ b)"
            using o by simp
          from dec [OF this, of rest]
          have "dec_seq ts ?blk (length pre + 32) = Inr vs" using w(1) by simp
          then show ?thesis using e True by (simp add: dec_seq_simps head_size_def)
        qed
        show ?thesis unfolding vs0 bodies0 res seq_ok_def using l1 l2 l3 d True by simp
      qed
    qed
  next
    case False
    from Cons.IH [OF rest, of off]
    have ih: "seq_ok off ts vs (heads_tails off ts bs)" .
    show ?thesis
    proof (cases "heads_tails off ts bs")
      case (Inl e)
      then show ?thesis using ih False by (simp add: seq_ok_def vs0 bodies0)
    next
      case r: (Inr ht)
      obtain h tail where ht: "ht = (h, tail)" by (cases ht)
      from ih r ht have "seq_ok off ts vs (Inr (h, tail))" by simp
      then have c: "length h = sum_list (map head_size ts) \<and>
          length h mod 32 = 0 \<and> length tail mod 32 = 0 \<and>
          (\<not> list_ex is_dynamic ts \<longrightarrow> tail = []) \<and>
          (\<forall>pre mid rest. off = length pre + length h + length mid \<longrightarrow>
             dec_seq ts (pre @ h @ mid @ tail @ rest) (length pre) = Inr vs)"
        unfolding seq_ok_def sum.case prod.case .
      from c have lh: "length h = sum_list (map head_size ts)" by blast
      from c have h32: "length h mod 32 = 0" by blast
      from c have t32: "length tail mod 32 = 0" by blast
      from c have st: "\<not> list_ex is_dynamic ts \<longrightarrow> tail = []" by blast
      from c have dec: "\<And>pre mid rest. off = length pre + length h + length mid \<Longrightarrow>
           dec_seq ts (pre @ h @ mid @ tail @ rest) (length pre) = Inr vs"
        by blast
      have res: "heads_tails off (t # ts) (b # bs) = Inr (b @ h, tail)"
        using False r ht by simp
      have l1: "length (b @ h) = sum_list (map head_size (t # ts))"
        using bst [OF False] lh False by (simp add: head_size_def)
      have l2: "length (b @ h) mod 32 = 0" using b32 h32 by (simp add: mod_add_eq [symmetric] del: mod_add_eq)
      have d: "dec_seq (t # ts) (pre @ (b @ h) @ mid @ tail @ rest) (length pre) = Inr (v # vs)"
        if o: "off = length pre + length (b @ h) + length mid" for pre mid rest
      proof -
        let ?blk = "pre @ (b @ h) @ mid @ tail @ rest"
        have e: "dec_elem t ?blk (length pre) = Inr v"
          using False bdec [of "h @ mid @ tail @ rest"] by (simp add: dec_elem_static)
        have "off = length (pre @ b) + length h + length mid" using o by simp
        from dec [OF this, of rest]
        have "dec_seq ts ?blk (length pre + head_size t) = Inr vs"
          using bst [OF False] False by (simp add: head_size_def)
        then show ?thesis using e by (simp add: dec_seq_simps)
      qed
      show ?thesis unfolding vs0 bodies0 res seq_ok_def using l1 l2 t32 st d False by simp
    qed
  qed
qed

lemma valid_values_length: "valid_values ts vs \<Longrightarrow> length ts = length vs"
  by (induction vs arbitrary: ts) (auto split: list.splits)

lemma head_size_static:
  "\<not> list_ex is_dynamic ts \<Longrightarrow> map head_size ts = map static_size ts"
  by (induction ts) (auto simp: head_size_def)

lemma enc_bodies_ok:
  assumes "\<And>v t. v \<in> set vs \<Longrightarrow> valid_value t v \<Longrightarrow> encodes_or_overflows t v (enc_body t v)"
    and "valid_values ts vs"
  shows "case enc_bodies ts vs of
           Inl e \<Rightarrow> e = SizeOverflowError
         | Inr bodies \<Rightarrow> all3 encodes ts vs bodies"
  using assms
proof (induction vs arbitrary: ts)
  case Nil
  then show ?case by simp
next
  case (Cons v vs)
  from Cons.prems(2) obtain t ts' where ts: "ts = t # ts'" and v: "valid_value t v"
    and vs: "valid_values ts' vs"
    by (cases ts) auto
  have e: "encodes_or_overflows t v (enc_body t v)" using Cons.prems(1) v by simp
  have ih: "case enc_bodies ts' vs of
           Inl e \<Rightarrow> e = SizeOverflowError
         | Inr bodies \<Rightarrow> all3 encodes ts' vs bodies"
    using Cons.IH [OF _ vs] Cons.prems(1) by simp
  show ?case using e ih
    by (auto simp: ts encodes_or_overflows_def split: sum.splits)
qed

lemma layout_ok:
  assumes "all3 encodes ts vs bodies"
  shows "list_encodes_or_overflows ts vs (layout ts (Inr bodies))"
proof -
  let ?off = "sum_list (map head_size ts)"
  from heads_tails_ok [OF assms, of ?off]
  have s: "seq_ok ?off ts vs (heads_tails ?off ts bodies)" .
  show ?thesis
  proof (cases "heads_tails ?off ts bodies")
    case (Inl e)
    then show ?thesis using s by (simp add: seq_ok_def layout_def list_encodes_or_overflows_def)
  next
    case (Inr ht)
    obtain h tail where ht: "ht = (h, tail)" by (cases ht)
    from s Inr ht have "seq_ok ?off ts vs (Inr (h, tail))" by simp
    then have c: "length h = sum_list (map head_size ts) \<and>
          length h mod 32 = 0 \<and> length tail mod 32 = 0 \<and>
          (\<not> list_ex is_dynamic ts \<longrightarrow> tail = []) \<and>
          (\<forall>pre mid rest. ?off = length pre + length h + length mid \<longrightarrow>
             dec_seq ts (pre @ h @ mid @ tail @ rest) (length pre) = Inr vs)"
      unfolding seq_ok_def sum.case prod.case .
    from c have lh: "length h = ?off" by blast
    from c have h32: "length h mod 32 = 0" by blast
    from c have t32: "length tail mod 32 = 0" by blast
    from c have st: "\<not> list_ex is_dynamic ts \<longrightarrow> tail = []" by blast
    from c have dec: "\<And>pre mid rest. ?off = length pre + length h + length mid \<Longrightarrow>
           dec_seq ts (pre @ h @ mid @ tail @ rest) (length pre) = Inr vs"
      by blast
    have l: "layout ts (Inr bodies) = Inr (h @ tail)" using Inr ht by (simp add: layout_def)
    have a: "length (h @ tail) mod 32 = 0"
      using h32 t32 by (simp add: mod_add_eq [symmetric] del: mod_add_eq)
    have b: "\<not> list_ex is_dynamic ts \<longrightarrow> length (h @ tail) = sum_list (map static_size ts)"
    proof
      assume n: "\<not> list_ex is_dynamic ts"
      then have "tail = []" using st by blast
      moreover have "map head_size ts = map static_size ts" using n by (rule head_size_static)
      ultimately show "length (h @ tail) = sum_list (map static_size ts)"
        using lh by (simp del: map_eq_conv)
    qed
    have d: "dec_seq ts ((h @ tail) @ rest) 0 = Inr vs" for rest
      using dec [of "[]" "[]" rest] lh by simp
    show ?thesis unfolding l list_encodes_or_overflows_def using a b d by simp
  qed
qed

lemma layout_enc_bodies:
  assumes "\<And>v t. v \<in> set vs \<Longrightarrow> valid_value t v \<Longrightarrow> encodes_or_overflows t v (enc_body t v)"
    and "valid_values ts vs"
  shows "list_encodes_or_overflows ts vs (layout ts (enc_bodies ts vs))"
proof (cases "enc_bodies ts vs")
  case (Inl e)
  then show ?thesis using enc_bodies_ok [OF assms]
    by (simp add: layout_def list_encodes_or_overflows_def)
next
  case (Inr bodies)
  then have "all3 encodes ts vs bodies" using enc_bodies_ok [OF assms] by simp
  from layout_ok [OF this] show ?thesis using Inr by simp
qed

lemma with_length_ok:
  assumes "list_encodes_or_overflows ts vs r"
    and "\<And>w blk rest. word32 n = Inr w \<Longrightarrow> r = Inr blk \<Longrightarrow>
           (\<forall>rest. dec_seq ts (blk @ rest) 0 = Inr vs) \<Longrightarrow> dec_body t (w @ blk @ rest) = Inr v"
    and "is_dynamic t"
  shows "encodes_or_overflows t v (with_length n r)"
proof (cases "word32 n")
  case (Inl e)
  then show ?thesis using word32_Inl [OF Inl] by (simp add: with_length_def encodes_or_overflows_def)
next
  case w: (Inr w)
  show ?thesis
  proof (cases r)
    case (Inl e)
    then show ?thesis using assms(1) w
      by (simp add: with_length_def encodes_or_overflows_def list_encodes_or_overflows_def)
  next
    case (Inr blk)
    from assms(1) Inr have b32: "length blk mod 32 = 0"
      and d: "\<forall>rest. dec_seq ts (blk @ rest) 0 = Inr vs"
      by (simp_all add: list_encodes_or_overflows_def)
    have "length (w @ blk) mod 32 = 0" using word32_Inr(1) [OF w] b32 by simp
    moreover have "dec_body t ((w @ blk) @ rest) = Inr v" for rest
      using assms(2) [OF w Inr d, of rest] by simp
    ultimately show ?thesis using assms(3) w Inr
      by (simp add: with_length_def encodes_or_overflows_def encodes_def)
  qed
qed

lemma list_ex_replicate: "list_ex P (replicate n x) = (0 < n \<and> P x)"
  by (induction n) auto

lemma encodes_tuple:
  assumes ih: "\<And>v t. v \<in> set vs \<Longrightarrow> valid_value t v \<Longrightarrow> encodes_or_overflows t v (enc_body t v)"
    and v: "valid_value t (VTuple vs)"
  shows "encodes_or_overflows t (VTuple vs) (enc_body t (VTuple vs))"
proof -
  from v obtain ts where t: "t = TTuple ts" and vv: "valid_values ts vs" by (cases t) auto
  have len: "length ts = length vs" using vv by (rule valid_values_length)
  from layout_enc_bodies [OF ih vv]
  have l: "list_encodes_or_overflows ts vs (layout ts (enc_bodies ts vs))" by simp
  show ?thesis
  proof (cases "layout ts (enc_bodies ts vs)")
    case (Inl e)
    then show ?thesis using l len
      by (simp add: t encodes_or_overflows_def list_encodes_or_overflows_def)
  next
    case (Inr blk)
    from l Inr have b32: "length blk mod 32 = 0"
      and st: "\<not> list_ex is_dynamic ts \<longrightarrow> length blk = sum_list (map static_size ts)"
      and d: "\<And>rest. dec_seq ts (blk @ rest) 0 = Inr vs"
      by (simp_all add: list_encodes_or_overflows_def)
    have "dec_body (TTuple ts) (blk @ rest) = Inr (VTuple vs)" for rest
      using d [of rest] by (simp add: dec_body_composite)
    then show ?thesis using b32 st len Inr
      by (simp add: t encodes_or_overflows_def encodes_def)
  qed
qed

lemma encodes_array:
  assumes ih: "\<And>v t. v \<in> set vs \<Longrightarrow> valid_value t v \<Longrightarrow> encodes_or_overflows t v (enc_body t v)"
    and v: "valid_value t (VArray vs)"
  shows "encodes_or_overflows t (VArray vs) (enc_body t (VArray vs))"
proof -
  from v obtain t' bound where t: "t = TArray t' bound" by (cases t) auto
  show ?thesis
  proof (cases bound)
    case None
    let ?ts = "replicate (length vs) t'"
    from v t None have vv: "valid_values ?ts vs" by simp
    from layout_enc_bodies [OF ih vv]
    have l: "list_encodes_or_overflows ?ts vs (layout ?ts (enc_bodies ?ts vs))" by simp
    have "dec_body (TArray t' None) (w @ blk @ rest) = Inr (VArray vs)"
      if w: "word32 (length vs) = Inr w" and d: "\<forall>rest. dec_seq ?ts (blk @ rest) 0 = Inr vs"
      for w blk rest
      using read_word_0 [OF w, of "blk @ rest"] word32_Inr(1) [OF w] d
      by (simp add: dec_body_composite dec_rep_seq)
    then have "encodes_or_overflows (TArray t' None) (VArray vs)
        (with_length (length vs) (layout ?ts (enc_bodies ?ts vs)))"
      using with_length_ok [OF l, of "length vs" "TArray t' None" "VArray vs"] by simp
    then show ?thesis by (simp add: t None)
  next
    case (Some n)
    let ?ts = "replicate n t'"
    from v t Some have len: "length vs = n" and vv: "valid_values ?ts vs" by simp_all
    from layout_enc_bodies [OF ih vv]
    have l: "list_encodes_or_overflows ?ts vs (layout ?ts (enc_bodies ?ts vs))" by simp
    show ?thesis
    proof (cases "layout ?ts (enc_bodies ?ts vs)")
      case (Inl e)
      then show ?thesis using l len
        by (simp add: t Some encodes_or_overflows_def list_encodes_or_overflows_def)
    next
      case (Inr blk)
      from l Inr have b32: "length blk mod 32 = 0"
        and st: "\<not> list_ex is_dynamic ?ts \<longrightarrow> length blk = sum_list (map static_size ?ts)"
        and d: "\<And>rest. dec_seq ?ts (blk @ rest) 0 = Inr vs"
        by (simp_all add: list_encodes_or_overflows_def)
      have s: "\<not> is_dynamic t' \<longrightarrow> length blk = n * static_size t'"
        using st by (simp add: list_ex_replicate sum_list_replicate)
      have "dec_body (TArray t' (Some n)) (blk @ rest) = Inr (VArray vs)" for rest
        using d [of rest] by (simp add: dec_body_composite dec_rep_seq)
      then show ?thesis using b32 s len Inr
        by (simp add: t Some encodes_or_overflows_def encodes_def)
    qed
  qed
qed

lemma enc_body_ok: "valid_value t v \<Longrightarrow> encodes_or_overflows t v (enc_body t v)"
proof (induction v arbitrary: t)
  case (VUint x)
  then show ?case by (rule encodes_uint)
next
  case (VInt x)
  then show ?case by (rule encodes_int)
next
  case (VAddress x)
  then show ?case by (rule encodes_address)
next
  case (VBool x)
  then show ?case by (rule encodes_bool)
next
  case (VFixedBytes x)
  then show ?case by (rule encodes_fixed_bytes)
next
  case (VBytes x)
  then show ?case by (rule encodes_bytes)
next
  case (VString x)
  then show ?case by (rule encodes_string)
next
  case (VTuple vs)
  show ?case by (rule encodes_tuple [OF VTuple.IH VTuple.prems])
next
  case (VArray vs)
  show ?case by (rule encodes_array [OF VArray.IH VArray.prems])
qed

lemma encodeAbiParameters_ok:
  assumes "valid_values ts vs"
  shows "list_encodes_or_overflows ts vs (encodeAbiParameters ts vs)"
  using layout_enc_bodies [OF enc_body_ok assms] valid_values_length [OF assms]
  by (simp add: encodeAbiParameters_def)

lemma encode_then_decode:
  assumes "valid_values params vals"
  shows "case encodeAbiParameters params vals of
           Inl e \<Rightarrow> e = SizeOverflowError
         | Inr data \<Rightarrow>
             (if data = [] then decodeAbiParameters params data = Inl AbiDecodingZeroDataError
              else decodeAbiParameters params data = Inr vals)"
proof (cases "encodeAbiParameters params vals")
  case (Inl e)
  then show ?thesis using encodeAbiParameters_ok [OF assms]
    by (simp add: list_encodes_or_overflows_def)
next
  case (Inr data)
  with encodeAbiParameters_ok [OF assms]
  have c: "length data mod 32 = 0 \<and>
      (\<not> list_ex is_dynamic params \<longrightarrow> length data = sum_list (map static_size params)) \<and>
      (\<forall>rest. dec_seq params (data @ rest) 0 = Inr vals)"
    by (simp add: list_encodes_or_overflows_def)
  from c have a: "length data mod 32 = 0" by blast
  from c have "dec_seq params (data @ []) 0 = Inr vals" by blast
  then have d: "dec_seq params data 0 = Inr vals" by simp
  show ?thesis using Inr a d by (simp add: decodeAbiParameters_def)
qed

lemma heads_tails_total:
  "all3 encodes ts vs bodies \<Longrightarrow> off + dyn_total ts bodies < 2 ^ 256 \<Longrightarrow>
   \<exists>h tail. heads_tails off ts bodies = Inr (h, tail) \<and> length tail = dyn_total ts bodies"
proof (induction ts arbitrary: vs bodies off)
  case Nil
  then show ?case by simp
next
  case (Cons t ts vs0 bodies0)
  then obtain v vs b bs where vs0: "vs0 = v # vs" and bodies0: "bodies0 = b # bs"
    by (cases vs0; cases bodies0; simp)
  from Cons.prems(1) have rest: "all3 encodes ts vs bs" by (simp add: vs0 bodies0)
  show ?case
  proof (cases "is_dynamic t")
    case True
    have o: "off < 2 ^ 256" "(off + length b) + dyn_total ts bs < 2 ^ 256"
      using Cons.prems(2) True by (simp_all add: bodies0)
    from word32_small [OF o(1)] obtain w where w: "word32 off = Inr w" by blast
    from Cons.IH [OF rest o(2)] obtain h tail where
      r: "heads_tails (off + length b) ts bs = Inr (h, tail)" "length tail = dyn_total ts bs"
      by blast
    show ?thesis using True w r by (simp add: bodies0)
  next
    case False
    have o: "off + dyn_total ts bs < 2 ^ 256"
      using Cons.prems(2) False by (simp add: bodies0)
    from Cons.IH [OF rest o] obtain h tail where
      r: "heads_tails off ts bs = Inr (h, tail)" "length tail = dyn_total ts bs"
      by blast
    show ?thesis using False r by (simp add: bodies0)
  qed
qed

lemma head_dyn_bound:
  "all3 encodes ts vs bodies \<Longrightarrow>
   sum_list (map head_size ts) + dyn_total ts bodies \<le> sum_list (map (\<lambda>b. 32 + length b) bodies)"
proof (induction ts arbitrary: vs bodies)
  case Nil
  then show ?case by simp
next
  case (Cons t ts vs0 bodies0)
  then obtain v vs b bs where vs0: "vs0 = v # vs" and bodies0: "bodies0 = b # bs"
    by (cases vs0; cases bodies0; simp)
  from Cons.prems have enc: "encodes t v b" and rest: "all3 encodes ts vs bs"
    by (simp_all add: vs0 bodies0)
  have "head_size t + (if is_dynamic t then length b else 0) \<le> 32 + length b"
    using enc by (simp add: head_size_def encodes_def)
  then show ?case using Cons.IH [OF rest] by (simp add: bodies0)
qed

lemma layout_total:
  assumes "all3 encodes ts vs bodies"
    and "sum_list (map (\<lambda>b. 32 + length b) bodies) < 2 ^ 256"
  shows "\<exists>blk. layout ts (Inr bodies) = Inr blk \<and>
               length blk \<le> sum_list (map (\<lambda>b. 32 + length b) bodies)"
proof -
  let ?off = "sum_list (map head_size ts)"
  have b: "?off + dyn_total ts bodies \<le> sum_list (map (\<lambda>b. 32 + length b) bodies)"
    by (rule head_dyn_bound [OF assms(1)])
  then have "?off + dyn_total ts bodies < 2 ^ 256" using assms(2) by linarith
  from heads_tails_total [OF assms(1) this] obtain h tail where
    r: "heads_tails ?off ts bodies = Inr (h, tail)" "length tail = dyn_total ts bodies"
    by blast
  from heads_tails_ok [OF assms(1), of ?off] r(1)
  have "seq_ok ?off ts vs (Inr (h, tail))" by simp
  then have "length h = ?off" by (simp add: seq_ok_def)
  then have "length (h @ tail) \<le> sum_list (map (\<lambda>b. 32 + length b) bodies)"
    using r(2) b by simp
  then show ?thesis using r(1) by (simp add: layout_def)
qed

lemma enc_bodies_total:
  assumes "\<And>v t. v \<in> set vs \<Longrightarrow> valid_value t v \<Longrightarrow> abi_weight v < 2 ^ 256 \<Longrightarrow>
             \<exists>b. enc_body t v = Inr b \<and> length b \<le> abi_weight v"
    and "valid_values ts vs" and "abi_weights vs < 2 ^ 256"
  shows "\<exists>bodies. enc_bodies ts vs = Inr bodies \<and>
           sum_list (map (\<lambda>b. 32 + length b) bodies) \<le> abi_weights vs"
  using assms
proof (induction vs arbitrary: ts)
  case Nil
  then show ?case by simp
next
  case (Cons v vs)
  from Cons.prems(2) obtain t ts' where ts: "ts = t # ts'" and v: "valid_value t v"
    and vs: "valid_values ts' vs"
    by (cases ts) auto
  have w: "abi_weight v < 2 ^ 256" "abi_weights vs < 2 ^ 256" using Cons.prems(3) by simp_all
  from Cons.prems(1) [OF _ v w(1)] obtain b where b: "enc_body t v = Inr b" "length b \<le> abi_weight v"
    by auto
  from Cons.IH [OF _ vs w(2)] Cons.prems(1) obtain bodies where
    bs: "enc_bodies ts' vs = Inr bodies" "sum_list (map (\<lambda>b. 32 + length b) bodies) \<le> abi_weights vs"
    by auto
  show ?case using b bs by (simp add: ts)
qed

lemma length_pad32_le: "length (pad32 bs) \<le> length bs + 31"
  by (simp add: pad32_def)

lemma with_length_total:
  assumes "n < 2 ^ 256" "r = Inr p"
  shows "\<exists>b. with_length n r = Inr b \<and> length b = 32 + length p"
proof -
  from word32_small [OF assms(1)] obtain w where w: "word32 n = Inr w" by blast
  then show ?thesis using word32_Inr(1) [OF w] assms(2) by (simp add: with_length_def)
qed

lemma length_le_weights: "length vs \<le> abi_weights vs"
  by (induction vs) auto

lemma uint_bound:
  fixes v n :: nat
  assumes "v < 2 ^ n" "n \<le> 256"
  shows "v < 2 ^ 256"
proof -
  have "(2 :: nat) ^ n \<le> 2 ^ 256" using assms(2) by (intro power_increasing) simp_all
  with assms(1) show ?thesis by linarith
qed

lemma enc_body_total:
  "valid_value t v \<Longrightarrow> abi_weight v < 2 ^ 256 \<Longrightarrow>
   \<exists>b. enc_body t v = Inr b \<and> length b \<le> abi_weight v"
proof (induction v arbitrary: t)
  case (VUint x)
  then obtain n where t: "t = TUint n" and x: "x < 2 ^ n" "n \<le> 256" by (cases t) auto
  from word32_small [OF uint_bound [OF x]] obtain w where w: "word32 x = Inr w" by blast
  then show ?case using word32_Inr(1) [OF w] by (simp add: t)
next
  case (VInt x)
  then obtain n where t: "t = TInt n" by (cases t) auto
  have "x mod 2 ^ 256 < 2 ^ 256" by (rule pos_mod_bound) simp
  moreover have "0 \<le> x mod 2 ^ 256" by (rule pos_mod_sign) simp
  ultimately have "nat (x mod 2 ^ 256) < 2 ^ 256"
    by (metis nat_less_iff numeral_power_eq_of_nat_cancel_iff of_nat_numeral of_nat_power)
  from word32_small [OF this] obtain w where w: "word32 (nat (x mod 2 ^ 256)) = Inr w" by blast
  then show ?case using word32_Inr(1) [OF w] by (simp add: t)
next
  case (VAddress x)
  then show ?case by (cases t) (auto simp: pad_left_def)
next
  case (VBool x)
  then have t: "t = TBool" by (cases t) auto
  have "(if x then 1 else 0 :: nat) < 2 ^ 256" by simp
  from word32_small [OF this] obtain w where w: "word32 (if x then 1 else 0) = Inr w" by blast
  then show ?case using word32_Inr(1) [OF w] by (simp add: t)
next
  case (VFixedBytes x)
  then show ?case by (cases t) (auto simp: pad_right_def)
next
  case (VBytes x)
  then have t: "t = TBytes" by (cases t) auto
  have "length x < 2 ^ 256" using VBytes.prems(2) by simp
  from with_length_total [OF this refl, of "pad32 x"] length_pad32_le [of x]
  show ?case by (auto simp: t)
next
  case (VString x)
  then have t: "t = TString" by (cases t) auto
  have "length x < 2 ^ 256" using VString.prems(2) by simp
  from with_length_total [OF this refl, of "pad32 (map byte_of_char x)"]
    length_pad32_le [of "map byte_of_char x"]
  show ?case by (auto simp: t)
next
  case (VTuple vs)
  from VTuple.prems obtain ts where t: "t = TTuple ts" and vv: "valid_values ts vs"
    by (cases t) auto
  have w: "abi_weights vs < 2 ^ 256" using VTuple.prems(2) by simp
  from enc_bodies_total [OF VTuple.IH vv w] obtain bodies where
    bs: "enc_bodies ts vs = Inr bodies" "sum_list (map (\<lambda>b. 32 + length b) bodies) \<le> abi_weights vs"
    by auto
  have "all3 encodes ts vs bodies" using enc_bodies_ok [OF enc_body_ok vv] bs(1) by simp
  from layout_total [OF this] bs(2) w obtain blk where
    "layout ts (Inr bodies) = Inr blk" "length blk \<le> sum_list (map (\<lambda>b. 32 + length b) bodies)"
    by fastforce
  then show ?case using bs valid_values_length [OF vv] by (simp add: t)
next
  case (VArray vs)
  from VArray.prems obtain t' bound where t: "t = TArray t' bound" by (cases t) auto
  define ts where "ts = replicate (length vs) t'"
  have vv: "valid_values ts vs" using VArray.prems(1) t by (cases bound) (auto simp: ts_def)
  have w: "abi_weights vs < 2 ^ 256" using VArray.prems(2) by simp
  from enc_bodies_total [OF VArray.IH vv w] obtain bodies where
    bs: "enc_bodies ts vs = Inr bodies" "sum_list (map (\<lambda>b. 32 + length b) bodies) \<le> abi_weights vs"
    by auto
  have "all3 encodes ts vs bodies" using enc_bodies_ok [OF enc_body_ok vv] bs(1) by simp
  from layout_total [OF this] bs(2) w obtain blk where
    blk: "layout ts (Inr bodies) = Inr blk" "length blk \<le> sum_list (map (\<lambda>b. 32 + length b) bodies)"
    by fastforce
  show ?case
  proof (cases bound)
    case None
    have "length vs < 2 ^ 256" using length_le_weights [of vs] w by linarith
    from with_length_total [OF this blk(1)] obtain b where
      "with_length (length vs) (layout ts (Inr bodies)) = Inr b" "length b = 32 + length blk"
      by blast
    then show ?thesis using bs blk(2) by (simp add: t None ts_def [symmetric])
  next
    case (Some n)
    then have n: "length vs = n" using VArray.prems(1) t by simp
    then have ts': "replicate n t' = ts" by (simp add: ts_def)
    have "enc_body t (VArray vs) = layout ts (enc_bodies ts vs)"
      using n by (simp add: t Some ts')
    then show ?thesis using bs blk by simp
  qed
qed

lemma encodeAbiParameters_total:
  assumes "valid_values ts vs" and "abi_weights vs < 2 ^ 256"
  shows "\<exists>data. encodeAbiParameters ts vs = Inr data"
proof -
  from enc_bodies_total [OF enc_body_total assms] obtain bodies where
    bs: "enc_bodies ts vs = Inr bodies" "sum_list (map (\<lambda>b. 32 + length b) bodies) \<le> abi_weights vs"
    by auto
  have "all3 encodes ts vs bodies" using enc_bodies_ok [OF enc_body_ok assms(1)] bs(1) by simp
  from layout_total [OF this] bs(2) assms(2) obtain blk where
    "layout ts (Inr bodies) = Inr blk" by fastforce
  then show ?thesis using bs(1) valid_values_length [OF assms(1)]
    by (simp add: encodeAbiParameters_def)
qed

lemma head_size_dynamic_pos:
  "list_ex is_dynamic ts \<Longrightarrow> 0 < sum_list (map head_size ts)"
  by (induction ts) (auto simp: head_size_def)

lemma layout_empty_iff:
  assumes "all3 encodes ts vs bodies" and "layout ts (Inr bodies) = Inr blk"
  shows "blk = [] \<longleftrightarrow> sum_list (map head_size ts) = 0"
proof -
  let ?off = "sum_list (map head_size ts)"
  from assms(2) obtain h tail where r: "heads_tails ?off ts bodies = Inr (h, tail)"
    and blk: "blk = h @ tail"
    by (auto simp: layout_def split: sum.splits)
  from heads_tails_ok [OF assms(1), of ?off] r
  have "seq_ok ?off ts vs (Inr (h, tail))" by simp
  then have lh: "length h = ?off" and st: "\<not> list_ex is_dynamic ts \<longrightarrow> tail = []"
    by (simp_all add: seq_ok_def)
  show ?thesis
  proof
    assume "blk = []"
    then show "?off = 0" using blk lh by simp
  next
    assume z: "?off = 0"
    have "\<not> list_ex is_dynamic ts"
    proof
      assume "list_ex is_dynamic ts"
      from head_size_dynamic_pos [OF this] z show False by (simp only: less_irrefl)
    qed
    then have "tail = []" using st by blast
    then show "blk = []" using blk lh z by simp
  qed
qed

text \<open>
  C1, as stated, fails for parameters of zero width: the encoding of an empty array of
  type \<open>uint256[0]\<close> is empty, and decoding empty data fails with
  \<open>AbiDecodingZeroDataError\<close>.
\<close>

theorem abi_roundtrip_zero_width_counterexample:
  "valid_values [TArray (TUint 256) (Some 0)] [VArray []] \<and>
   encodeAbiParameters [TArray (TUint 256) (Some 0)] [VArray []] = Inr [] \<and>
   decodeAbiParameters [TArray (TUint 256) (Some 0)] [] = Inl AbiDecodingZeroDataError"
  by (simp add: encodeAbiParameters_def layout_def decodeAbiParameters_def head_size_def)

text \<open>
  C1, amended. For a valid parameter list whose head is not empty, that is with a
  parameter that is not of zero width, and matching values of a size that fits a 32-byte
  word, the encoding exists and is not empty, and decoding it returns the original
  values, whatever their nesting.
\<close>

theorem abi_roundtrip:
  assumes "valid_values params vals" and "abi_weights vals < 2 ^ 256"
    and "0 < sum_list (map head_size params)"
  shows "\<exists>data. encodeAbiParameters params vals = Inr data \<and> data \<noteq> [] \<and>
           decodeAbiParameters params data = Inr vals"
proof -
  from encodeAbiParameters_total [OF assms(1,2)] obtain data where
    d: "encodeAbiParameters params vals = Inr data" by blast
  have len: "length params = length vals" using assms(1) by (rule valid_values_length)
  from d len obtain bodies where bs: "enc_bodies params vals = Inr bodies"
    and l: "layout params (Inr bodies) = Inr data"
    by (cases "enc_bodies params vals") (auto simp: encodeAbiParameters_def layout_def)
  have a: "all3 encodes params vals bodies"
    using enc_bodies_ok [OF enc_body_ok assms(1)] bs by simp
  have ne: "data \<noteq> []"
  proof
    assume "data = []"
    then have "sum_list (map head_size params) = 0"
      using layout_empty_iff [OF a l] by blast
    then show False using assms(3) by linarith
  qed
  have "decodeAbiParameters params data = Inr vals"
    using encode_then_decode [OF assms(1)] d ne by simp
  with d ne show ?thesis by blast
qed

theorem abi_roundtrip_witness:
  "valid_values ex_params ex_values \<and> abi_weights ex_values < 2 ^ 256 \<and>
   sum_list (map head_size ex_params) = 192 \<and>
   (\<exists>data. encodeAbiParameters ex_params ex_values = Inr data \<and> data \<noteq> [] \<and>
      decodeAbiParameters ex_params data = Inr ex_values)"
proof -
  have r2: "replicate 2 t = [t, t]" for t :: abi_type
    by (simp add: numeral_2_eq_2)
  have v: "valid_values ex_params ex_values"
    by (simp add: ex_params_def ex_values_def r2)
  have w: "abi_weights ex_values < 2 ^ 256"
    by (simp add: ex_values_def)
  have h: "sum_list (map head_size ex_params) = 192"
    by (simp add: ex_params_def head_size_def)
  have p: "0 < sum_list (map head_size ex_params)" unfolding h by simp
  from abi_roundtrip [OF v w p] v w h show ?thesis by blast
qed

end
